theory Spec2Isabelle
  imports Main "HOL-Library.Word" "HOL-Library.Multiset" "HOL-Library.Char_ord"
    "HOL-Library.List_Lexorder"
begin

section \<open>Python strings and \<open>os.path\<close>\<close>

text \<open>
  The repository is one Python module, \<^verbatim>\<open>duplicates/duplicates.py\<close>. It calls the standard
  library (\<^verbatim>\<open>os\<close>, \<^verbatim>\<open>os.path\<close>, \<^verbatim>\<open>hashlib\<close>) and pandas. None of
  them is part of the repository; each library function the module calls is modelled here from
  its documented behaviour, and the module's own functions further below are transcribed from
  their source line by line.

  \<^verbatim>\<open>os.path\<close> is modelled on POSIX, where it is CPython's \<^verbatim>\<open>posixpath\<close>: the separator is
  \<open>/\<close>, \<^verbatim>\<open>isabs\<close> tests for a leading separator, \<^verbatim>\<open>join\<close>, \<^verbatim>\<open>normpath\<close>,
  \<^verbatim>\<open>abspath\<close> and \<^verbatim>\<open>splitext\<close> follow the code of that module.
\<close>

type_synonym byte = "8 word"

definition startswith :: "string \<Rightarrow> string \<Rightarrow> bool" where
  "startswith s p = (take (length p) s = p)"

definition endswith :: "string \<Rightarrow> string \<Rightarrow> bool" where
  "endswith s p = (length p \<le> length s \<and> drop (length s - length p) s = p)"

text \<open>\<^verbatim>\<open>s.replace(old, new)\<close> for a one-character \<open>old\<close>.\<close>

definition str_replace :: "char \<Rightarrow> string \<Rightarrow> string \<Rightarrow> string" where
  "str_replace old new s = concat (map (\<lambda>c. if c = old then new else [c]) s)"

text \<open>\<^verbatim>\<open>s.split(sep)\<close> for a one-character separator: never the empty list.\<close>

fun str_split :: "char \<Rightarrow> string \<Rightarrow> string list" where
  "str_split sep [] = [[]]"
| "str_split sep (c # cs) =
     (if c = sep then [] # str_split sep cs
      else (case str_split sep cs of
              [] \<Rightarrow> [[c]]
            | w # ws \<Rightarrow> (c # w) # ws))"

fun str_join :: "string \<Rightarrow> string list \<Rightarrow> string" where
  "str_join sep [] = []"
| "str_join sep [w] = w"
| "str_join sep (w # v # ws) = w @ sep @ str_join sep (v # ws)"

text \<open>\<^verbatim>\<open>s.rfind(c)\<close>: the highest index of \<open>c\<close> in \<open>s\<close>, or \<open>-1\<close>.\<close>

definition rfind :: "char \<Rightarrow> string \<Rightarrow> int" where
  "rfind c s =
     (case filter (\<lambda>i. s ! i = c) (rev [0..<length s]) of
        [] \<Rightarrow> - 1
      | i # _ \<Rightarrow> int i)"

definition os_sep :: string where
  "os_sep = ''/''"

definition isabs :: "string \<Rightarrow> bool" where
  "isabs s = startswith s ''/''"

text \<open>\<^verbatim>\<open>os.path.join(a, b)\<close> with two arguments.\<close>

definition path_join :: "string \<Rightarrow> string \<Rightarrow> string" where
  "path_join a b =
     (if startswith b ''/'' then b
      else if a = [] \<or> endswith a ''/'' then a @ b
      else a @ ''/'' @ b)"

text \<open>
  \<^verbatim>\<open>os.path.normpath\<close>. Its variable \<^verbatim>\<open>initial_slashes\<close> is \<open>False\<close>, \<open>True\<close> or
  \<open>2\<close> and is used as a number; here it is \<open>0\<close>, \<open>1\<close> or \<open>2\<close>. One pass of its loop
  over the components is \<open>normpath_step\<close>.
\<close>

definition initial_slashes :: "string \<Rightarrow> nat" where
  "initial_slashes path =
     (if startswith path ''/''
      then (if startswith path ''//'' \<and> \<not> startswith path ''///'' then 2 else 1)
      else 0)"

definition normpath_step :: "nat \<Rightarrow> string list \<Rightarrow> string \<Rightarrow> string list" where
  "normpath_step islash new_comps part =
     (if part = [] \<or> part = ''.'' then new_comps
      else if part \<noteq> ''..'' \<or> (islash = 0 \<and> new_comps = [])
               \<or> (new_comps \<noteq> [] \<and> last new_comps = ''..'')
           then new_comps @ [part]
      else if new_comps \<noteq> [] then butlast new_comps
      else new_comps)"

definition normpath :: "string \<Rightarrow> string" where
  "normpath path =
     (if path = [] then ''.''
      else
        let islash = initial_slashes path;
            comps = str_split CHR ''/'' path;
            new_comps = foldl (normpath_step islash) [] comps;
            joined = str_join ''/'' new_comps;
            res = (if islash \<noteq> 0 then replicate islash CHR ''/'' @ joined else joined)
        in if res = [] then ''.'' else res)"

text \<open>\<^verbatim>\<open>os.path.abspath\<close>; \<open>cwd\<close> is what \<^verbatim>\<open>os.getcwd()\<close> returns.\<close>

definition abspath :: "string \<Rightarrow> string \<Rightarrow> string" where
  "abspath cwd path = normpath (if \<not> isabs path then path_join cwd path else path)"

text \<open>
  \<^verbatim>\<open>os.path.splitext\<close>: the extension starts at the last dot of the last component, unless
  that component has only dots before it.
\<close>

definition splitext :: "string \<Rightarrow> string \<times> string" where
  "splitext p =
     (let sepIndex = rfind CHR ''/'' p;
          dotIndex = rfind CHR ''.'' p
      in if dotIndex > sepIndex
            \<and> list_ex (\<lambda>i. p ! i \<noteq> CHR ''.'') [nat (sepIndex + 1)..<nat dotIndex]
         then (take (nat dotIndex) p, drop (nat dotIndex) p)
         else (p, []))"

text \<open>A path component that \<open>normpath\<close> keeps as it is.\<close>

definition plain :: "string \<Rightarrow> bool" where
  "plain c = (c \<noteq> [] \<and> c \<noteq> ''.'' \<and> c \<noteq> ''..'' \<and> CHR ''/'' \<notin> set c)"

section \<open>The file system\<close>

text \<open>
  The state of the operating system that the module reads: a directory tree, the current
  working directory, and the standard output. The tree does not change while the module runs,
  and the module never writes to it (the \<^verbatim>\<open>to_csv\<close> branches apart, which are left out:
  they only save the table that is returned), so the state is a parameter of every function and
  is not returned.

  An entry of the tree is
  \<^item> an ordinary regular file: it has its bytes, \<^verbatim>\<open>os.stat\<close> reports their number as its
    size, and a flag tells whether \<^verbatim>\<open>open\<close> succeeds on it (permissions);
  \<^item> a dangling symbolic link;
  \<^item> a directory, with the size that \<^verbatim>\<open>os.stat\<close> reports for it;
  \<^item> any other entry that can be opened, for which what \<^verbatim>\<open>os.stat\<close> reports is independent
    of what reading delivers: a character device such as \<^verbatim>\<open>/dev/null\<close> (not a regular file,
    size 0), a file of a virtual file system such as \<^verbatim>\<open>/proc\<close> (regular, size 0, not empty),
    a file on a failing disk (the read after the bytes delivered raises an \<open>OSError\<close>).
    An entry that delivers bytes without end is not modelled.

  A failure of a system call is an \<^verbatim>\<open>OSError\<close> (its subclasses are the constructors of
  \<open>os_error\<close>). Before any system call, Python refuses a path with an embedded null character
  with a \<^verbatim>\<open>ValueError\<close>. What \<^verbatim>\<open>print\<close> raises for a text, if anything (the text cannot be
  encoded for the standard output, the standard output is closed), is \<open>print_error\<close>.
\<close>

datatype os_error =
  FileNotFoundError | NotADirectoryError | IsADirectoryError | PermissionError | InputOutputError

datatype py_error = OSError os_error | ValueError

datatype node =
    RegularFile (content: "byte list") (readable: bool)
  | BrokenLink
  | Directory (dir_size: nat) (entries: "(string \<times> node) list")
  | OtherFile (regular: bool) (st_size: nat) (delivers: "byte list") (read_fails: bool)

record os_state =
  root :: node
  cwd :: string
  print_error :: "string \<Rightarrow> py_error option"

text \<open>Path resolution, component by component; \<open>up\<close> holds the ancestors of \<open>cur\<close>.\<close>

fun descend :: "node \<Rightarrow> node list \<Rightarrow> string list \<Rightarrow> os_error + node" where
  "descend cur up [] = Inr cur"
| "descend cur up (c # cs) =
     (case cur of
        Directory sz es \<Rightarrow>
          if c = [] \<or> c = ''.'' then descend cur up cs
          else if c = ''..'' then
            (case up of [] \<Rightarrow> descend cur [] cs | p # ps \<Rightarrow> descend p ps cs)
          else
            (case map_of es c of
               None \<Rightarrow> Inl FileNotFoundError
             | Some n \<Rightarrow> descend n (cur # up) cs)
      | RegularFile _ _ \<Rightarrow> Inl NotADirectoryError
      | BrokenLink \<Rightarrow> Inl FileNotFoundError
      | OtherFile _ _ _ _ \<Rightarrow> Inl NotADirectoryError)"

definition resolve :: "os_state \<Rightarrow> string \<Rightarrow> py_error + node" where
  "resolve os path =
     (if CHR 0x00 \<in> set path then Inl ValueError
      else if path = [] then Inl (OSError FileNotFoundError)
      else
        (case descend (root os) []
                (str_split CHR ''/'' (if isabs path then path else cwd os @ ''/'' @ path)) of
           Inl e \<Rightarrow> Inl (OSError e)
         | Inr n \<Rightarrow> Inr n))"

datatype file_kind = S_IFREG | S_IFDIR | S_IFCHR

text \<open>\<^verbatim>\<open>os.stat\<close>: the kind of the file and \<^verbatim>\<open>st_size\<close>.\<close>

definition os_stat :: "os_state \<Rightarrow> string \<Rightarrow> py_error + (file_kind \<times> nat)" where
  "os_stat os path =
     (case resolve os path of
        Inl err \<Rightarrow> Inl err
      | Inr n \<Rightarrow>
          (case n of
             RegularFile c r \<Rightarrow> Inr (S_IFREG, length c)
           | BrokenLink \<Rightarrow> Inl (OSError FileNotFoundError)
           | Directory sz es \<Rightarrow> Inr (S_IFDIR, sz)
           | OtherFile reg sz bs bad \<Rightarrow> Inr (if reg then S_IFREG else S_IFCHR, sz)))"

text \<open>
  \<^verbatim>\<open>os.path.isfile\<close> catches the \<open>OSError\<close> and the \<open>ValueError\<close> of \<^verbatim>\<open>os.stat\<close>;
  \<^verbatim>\<open>os.path.getsize\<close> catches nothing.
\<close>

definition isfile :: "os_state \<Rightarrow> string \<Rightarrow> bool" where
  "isfile os path =
     (case os_stat os path of
        Inl err \<Rightarrow> False
      | Inr st \<Rightarrow> fst st = S_IFREG)"

definition getsize :: "os_state \<Rightarrow> string \<Rightarrow> py_error + nat" where
  "getsize os path =
     (case os_stat os path of
        Inl err \<Rightarrow> Inl err
      | Inr st \<Rightarrow> Inr (snd st))"

text \<open>
  \<^verbatim>\<open>open(file, 'rb')\<close>: the stream is the list of the bytes still to be delivered, with the
  flag telling whether the read at their end raises instead of reporting the end of the stream.
  \<^verbatim>\<open>message.read(n)\<close> raises a \<open>ValueError\<close> for \<open>n\<close> below \<open>-1\<close>, reads to the end
  of the stream for \<open>n = -1\<close>, and otherwise returns at most \<open>n\<close> bytes, the empty block at
  the end of the stream.
\<close>

type_synonym stream = "byte list \<times> bool"

definition open_rb :: "os_state \<Rightarrow> string \<Rightarrow> py_error + stream" where
  "open_rb os path =
     (case resolve os path of
        Inl err \<Rightarrow> Inl err
      | Inr n \<Rightarrow>
          (case n of
             RegularFile c r \<Rightarrow> if r then Inr (c, False) else Inl (OSError PermissionError)
           | BrokenLink \<Rightarrow> Inl (OSError FileNotFoundError)
           | Directory sz es \<Rightarrow> Inl (OSError IsADirectoryError)
           | OtherFile reg sz bs bad \<Rightarrow> Inr (bs, bad)))"

definition stream_read :: "int \<Rightarrow> stream \<Rightarrow> py_error + (byte list \<times> stream)" where
  "stream_read n message =
     (let bs = fst message; bad = snd message
      in if n < - 1 then Inl ValueError
         else if n = 0 then Inr ([], message)
         else if bs = [] then (if bad then Inl (OSError InputOutputError) else Inr ([], message))
         else if n = - 1 then (if bad then Inl (OSError InputOutputError) else Inr (bs, ([], bad)))
         else Inr (take (nat n) bs, (drop (nat n) bs, bad)))"

text \<open>
  \<^verbatim>\<open>os.walk(top)\<close>, top down and without following links: one triple per directory, the
  directory's own first, then those of its subdirectories in the order of the listing. An entry
  that is not a directory yields nothing. \<^verbatim>\<open>os.walk\<close> ignores the \<open>OSError\<close> of a \<open>top\<close>
  that cannot be listed and yields nothing then; the \<open>ValueError\<close> of a \<open>top\<close> with a null
  character escapes from it.
\<close>

definition is_dir :: "node \<Rightarrow> bool" where
  "is_dir n = (case n of Directory sz es \<Rightarrow> True | _ \<Rightarrow> False)"

fun walk :: "string \<Rightarrow> node \<Rightarrow> (string \<times> string list \<times> string list) list" where
  "walk topdir (Directory sz es) =
     (topdir, map fst (filter (\<lambda>e. is_dir (snd e)) es),
           map fst (filter (\<lambda>e. \<not> is_dir (snd e)) es))
       # concat (map (\<lambda>e. walk (path_join topdir (fst e)) (snd e)) es)"
| "walk topdir (RegularFile c r) = []"
| "walk topdir BrokenLink = []"
| "walk topdir (OtherFile reg sz bs bad) = []"

definition os_walk ::
  "os_state \<Rightarrow> string \<Rightarrow> py_error + (string \<times> string list \<times> string list) list" where
  "os_walk os topdir =
     (case resolve os topdir of
        Inl err \<Rightarrow> (case err of OSError e \<Rightarrow> Inr [] | ValueError \<Rightarrow> Inl ValueError)
      | Inr n \<Rightarrow> Inr (walk topdir n))"

text \<open>
  The names of a directory's entries are plain path components on every file system: not
  empty, neither \<open>.\<close> nor \<open>..\<close>, and without a separator.
\<close>

fun wellnamed :: "node \<Rightarrow> bool" where
  "wellnamed (Directory sz es) = (\<forall>e \<in> set es. plain (fst e) \<and> wellnamed (snd e))"
| "wellnamed (RegularFile c r) = True"
| "wellnamed BrokenLink = True"
| "wellnamed (OtherFile reg sz bs bad) = True"

section \<open>\<open>hashlib\<close> and pandas\<close>

text \<open>
  \<^verbatim>\<open>hashlib.sha256()\<close> returns a hash object. By the library's documentation, repeated calls of
  \<^verbatim>\<open>update\<close> are equivalent to one call with the concatenation of their arguments, and
  \<^verbatim>\<open>hexdigest\<close> returns the digest of the data fed so far as a string of lowercase
  hexadecimal digits, two for each byte: the object is modelled by the data fed so far. The
  SHA-256 function itself, from a message to the bytes of its digest, is the parameter
  \<open>sha\<close> of everything below.
\<close>

type_synonym sha256_obj = "byte list"

definition sha256_new :: sha256_obj where
  "sha256_new = []"

definition sha256_update :: "sha256_obj \<Rightarrow> byte list \<Rightarrow> sha256_obj" where
  "sha256_update m block = m @ block"

definition hexdigit :: "nat \<Rightarrow> char" where
  "hexdigit n = ''0123456789abcdef'' ! n"

definition hexlify :: "byte list \<Rightarrow> string" where
  "hexlify bs = concat (map (\<lambda>b. [hexdigit (unat b div 16), hexdigit (unat b mod 16)]) bs)"

definition sha256_hexdigest :: "(byte list \<Rightarrow> byte list) \<Rightarrow> sha256_obj \<Rightarrow> string" where
  "sha256_hexdigest sha m = hexlify (sha m)"

text \<open>
  A pandas data frame with the column \<open>file\<close> and one more column (\<open>hash\<close> or \<open>size\<close>)
  is the list of its rows, in order.

  \<^verbatim>\<open>Series.duplicated(keep=False)\<close> marks every value that occurs more than once;
  \<^verbatim>\<open>df[mask]\<close> keeps the rows at which a boolean mask of the frame's length holds.
\<close>

type_synonym 'v frame = "(string \<times> 'v) list"

definition duplicated_keep_false :: "'a list \<Rightarrow> bool list" where
  "duplicated_keep_false col = map (\<lambda>x. 2 \<le> count_list col x) col"

definition boolean_mask :: "'r list \<Rightarrow> bool list \<Rightarrow> 'r list" where
  "boolean_mask rows flags = map fst (filter snd (zip rows flags))"

text \<open>
  \<^verbatim>\<open>df.iloc[ind]\<close> with \<open>ind\<close> a list of boolean series, as \<^verbatim>\<open>compare_folders\<close> calls
  it: the list becomes a two-dimensional boolean array with one row for each row of the frame,
  and \<open>iloc\<close> takes the frame's rows at the first component of the array's
  \<^verbatim>\<open>nonzero()\<close>, that is, row \<open>i\<close> once for each true entry of \<open>ind[i]\<close>, in order.
\<close>

definition nonzero_rows :: "bool list list \<Rightarrow> nat list" where
  "nonzero_rows ind =
     concat (map (\<lambda>i. replicate (length (filter (\<lambda>b. b) (ind ! i))) i) [0..<length ind])"

definition iloc_take :: "'r list \<Rightarrow> nat list \<Rightarrow> 'r list" where
  "iloc_take rows inds = map (\<lambda>i. rows ! i) inds"

text \<open>
  \<^verbatim>\<open>df.drop_duplicates(subset='file')\<close> keeps, of the rows with one \<open>file\<close>, the first.
\<close>

fun drop_duplicates_seen :: "string list \<Rightarrow> 'v frame \<Rightarrow> 'v frame" where
  "drop_duplicates_seen seen [] = []"
| "drop_duplicates_seen seen (r # rs) =
     (if fst r \<in> set seen then drop_duplicates_seen seen rs
      else r # drop_duplicates_seen (fst r # seen) rs)"

definition drop_duplicates_file :: "'v frame \<Rightarrow> 'v frame" where
  "drop_duplicates_file rows = drop_duplicates_seen [] rows"

text \<open>
  \<^verbatim>\<open>df.sort_values(by='hash')\<close> is called with pandas' default \<^verbatim>\<open>kind='quicksort'\<close>, which
  pandas documents as not stable. What the call guarantees is that the frame comes back with
  the same rows, in ascending order of the column; Python compares strings lexicographically by
  code point, which is the order of \<open>string\<close> here. The sort is a parameter of the functions
  that call it, and \<open>sorts_by_hash\<close> is its contract.
\<close>

definition sorts_by_hash :: "(string frame \<Rightarrow> string frame) \<Rightarrow> bool" where
  "sorts_by_hash sort_values =
     (\<forall>df. sorted (map snd (sort_values df)) \<and> mset (sort_values df) = mset df)"

text \<open>A sort that meets the contract: the stable insertion sort of the library.\<close>

definition stable_sort_values :: "string frame \<Rightarrow> string frame" where
  "stable_sort_values df = sort_key snd df"

section \<open>The module \<open>duplicates\<close>\<close>

text \<open>\<^verbatim>\<open>format_path\<close>, lines 24 to 26.\<close>

definition format_path :: "os_state \<Rightarrow> string \<Rightarrow> string" where
  "format_path os file = abspath (cwd os) ([str_replace CHR ''/'' os_sep file] ! 0)"

text \<open>
  \<^verbatim>\<open>filelist\<close>, lines 29 to 40: the two nested loops append to \<open>file_list\<close>; an exception
  of \<^verbatim>\<open>os.walk\<close> ends the function.
\<close>

definition filelist :: "os_state \<Rightarrow> string \<Rightarrow> string option \<Rightarrow> py_error + string list" where
  "filelist os filepath ext =
     (case os_walk os filepath of
        Inl err \<Rightarrow> Inl err
      | Inr triples \<Rightarrow>
          Inr (foldl (\<lambda>file_list (path, dirs, files).
                        foldl (\<lambda>file_list name.
                                 let extension = snd (splitext name)
                                 in if ext = None \<or> Some extension = ext
                                    then file_list @ [path_join path name]
                                    else file_list)
                              file_list files)
                     [] triples))"

text \<open>
  \<^verbatim>\<open>hashfile\<close>, lines 49 to 59. The loop runs while the block just read is not empty;
  it ends because each pass that reads a block which is not empty shortens the stream. An
  exception of \<^verbatim>\<open>open\<close> or of a \<^verbatim>\<open>read\<close> ends the function.
\<close>

definition default_block_size :: int where
  "default_block_size = 65536"

function hash_loop :: "int \<Rightarrow> byte list \<Rightarrow> stream \<Rightarrow> sha256_obj \<Rightarrow> py_error + sha256_obj" where
  "hash_loop block_size block message m =
     (if length block > 0
      then (case stream_read block_size message of
              Inl err \<Rightarrow> Inl err
            | Inr next_read \<Rightarrow>
                hash_loop block_size (fst next_read) (snd next_read) (sha256_update m block))
      else Inr m)"
  by pat_completeness auto
termination
  by (relation "measure (\<lambda>(block_size, block, message, m).
        length (fst message) + (if block = [] then 0 else 1))")
     (auto simp: stream_read_def Let_def split: if_splits)

definition hashfile ::
  "(byte list \<Rightarrow> byte list) \<Rightarrow> os_state \<Rightarrow> string \<Rightarrow> int \<Rightarrow> py_error + string" where
  "hashfile sha os file block_size =
     (case open_rb os file of
        Inl err \<Rightarrow> Inl err
      | Inr message \<Rightarrow>
          (case stream_read block_size message of
             Inl err \<Rightarrow> Inl err
           | Inr first_read \<Rightarrow>
               (case hash_loop block_size (fst first_read) (snd first_read) sha256_new of
                  Inl err \<Rightarrow> Inl err
                | Inr m \<Rightarrow> Inr (sha256_hexdigest sha m))))"

text \<open>
  \<^verbatim>\<open>hashtable\<close>, lines 62 to 75. Its argument is a list of paths or one path, which it
  wraps in a list. The \<^verbatim>\<open>print\<close> of the current path stands before the \<^verbatim>\<open>try\<close>, so
  whatever it raises ends the function; the \<^verbatim>\<open>except OSError\<close> catches an \<open>OSError\<close> of
  \<^verbatim>\<open>hashfile\<close> and lets any other exception pass.
\<close>

datatype files_arg = Single string | Many "string list"

definition no_hash :: string where
  "no_hash = ''No hash could be generated''"

fun hashtable_loop ::
  "(byte list \<Rightarrow> byte list) \<Rightarrow> os_state \<Rightarrow> string list \<Rightarrow> string list
    \<Rightarrow> py_error + string list" where
  "hashtable_loop sha os [] hash_identifier = Inr hash_identifier"
| "hashtable_loop sha os (file # files) hash_identifier =
     (case print_error os file of
        Some err \<Rightarrow> Inl err
      | None \<Rightarrow>
          (case hashfile sha os file default_block_size of
             Inr digest \<Rightarrow> hashtable_loop sha os files (hash_identifier @ [digest])
           | Inl err \<Rightarrow>
               (case err of
                  OSError e \<Rightarrow> hashtable_loop sha os files (hash_identifier @ [no_hash])
                | ValueError \<Rightarrow> Inl ValueError)))"

definition hashtable ::
  "(byte list \<Rightarrow> byte list) \<Rightarrow> os_state \<Rightarrow> files_arg \<Rightarrow> py_error + string list" where
  "hashtable sha os arg =
     (let files = (case arg of Single file \<Rightarrow> [file] | Many files \<Rightarrow> files)
      in hashtable_loop sha os files [])"

text \<open>
  \<^verbatim>\<open>preselect\<close>, lines 136 to 150. The list comprehension of the sizes stops at the first
  \<^verbatim>\<open>os.path.getsize\<close> that raises.
\<close>

fun getsizes :: "os_state \<Rightarrow> string list \<Rightarrow> py_error + nat list" where
  "getsizes os [] = Inr []"
| "getsizes os (file # files) =
     (case getsize os file of
        Inl err \<Rightarrow> Inl err
      | Inr n \<Rightarrow>
          (case getsizes os files of
             Inl err \<Rightarrow> Inl err
           | Inr ns \<Rightarrow> Inr (n # ns)))"

definition preselect :: "os_state \<Rightarrow> string list \<Rightarrow> py_error + string list" where
  "preselect os input_files =
     (let checked_files =
            foldl (\<lambda>checked_files file.
                     if isfile os file then checked_files @ [file] else checked_files)
                  [] input_files
      in case getsizes os checked_files of
           Inl err \<Rightarrow> Inl err
         | Inr sizes \<Rightarrow>
             let summary_df = zip checked_files sizes;
                 summary_df' =
                   boolean_mask summary_df (duplicated_keep_false (map snd summary_df))
             in Inr (map fst summary_df'))"

text \<open>
  \<^verbatim>\<open>create_table\<close>, lines 7 to 21. The two columns are assigned from lists of one length.
\<close>

definition create_table ::
  "(byte list \<Rightarrow> byte list) \<Rightarrow> os_state \<Rightarrow> string \<Rightarrow> string option \<Rightarrow> bool
    \<Rightarrow> py_error + string frame" where
  "create_table sha os folder ext pre =
     (let folder' = format_path os folder
      in case filelist os folder' ext of
           Inl err \<Rightarrow> Inl err
         | Inr input_files \<Rightarrow>
             (case (if pre then preselect os input_files else Inr input_files) of
                Inl err \<Rightarrow> Inl err
              | Inr input_files' \<Rightarrow>
                  (case hashtable sha os (Many input_files') of
                     Inl err \<Rightarrow> Inl err
                   | Inr hashes \<Rightarrow> Inr (zip input_files' hashes))))"

text \<open>
  \<^verbatim>\<open>list_all_duplicates\<close>, lines 78 to 96, with \<^verbatim>\<open>to_csv=False\<close>.
\<close>

definition list_all_duplicates ::
  "(string frame \<Rightarrow> string frame) \<Rightarrow> (byte list \<Rightarrow> byte list) \<Rightarrow> os_state \<Rightarrow> string
    \<Rightarrow> string option \<Rightarrow> bool \<Rightarrow> py_error + string frame" where
  "list_all_duplicates sort_values sha os folder ext fastscan =
     (case create_table sha os folder ext fastscan of
        Inl err \<Rightarrow> Inl err
      | Inr duplicate_files \<Rightarrow>
          let duplicate_files' =
                boolean_mask duplicate_files (duplicated_keep_false (map snd duplicate_files))
          in Inr (sort_values duplicate_files'))"

text \<open>
  \<^verbatim>\<open>find_duplicates\<close>, lines 99 to 113. \<^verbatim>\<open>hashtable\<close> is called on the one path, and a
  list of one hash is replaced by the hash. The comparison of the column with a list of another
  length, which pandas answers element by element for a list of the column's length and with a
  \<open>ValueError\<close> otherwise, is the \<open>else\<close> branch.
\<close>

definition find_duplicates ::
  "(string frame \<Rightarrow> string frame) \<Rightarrow> (byte list \<Rightarrow> byte list) \<Rightarrow> os_state \<Rightarrow> string
    \<Rightarrow> string \<Rightarrow> py_error + string frame" where
  "find_duplicates sort_values sha os file folder =
     (let file' = format_path os file;
          folder' = format_path os folder
      in case hashtable sha os (Single file') of
           Inl err \<Rightarrow> Inl err
         | Inr file_hash \<Rightarrow>
             (case list_all_duplicates sort_values sha os folder' None False of
                Inl err \<Rightarrow> Inl err
              | Inr duplicate_files \<Rightarrow>
                  if length file_hash = 1
                  then Inr (boolean_mask duplicate_files
                         (map (\<lambda>h. h = file_hash ! 0) (map snd duplicate_files)))
                  else if length file_hash = length duplicate_files
                  then Inr (boolean_mask duplicate_files
                         (map (\<lambda>(h, h'). h = h') (zip (map snd duplicate_files) file_hash)))
                  else Inl ValueError))"

text \<open>
  \<^verbatim>\<open>compare_folders\<close>, lines 116 to 133, with \<^verbatim>\<open>to_csv=False\<close>.
\<close>

definition compare_folders ::
  "(byte list \<Rightarrow> byte list) \<Rightarrow> os_state \<Rightarrow> string \<Rightarrow> string \<Rightarrow> string option
    \<Rightarrow> py_error + string frame" where
  "compare_folders sha os reference_folder compare_folder ext =
     (case create_table sha os reference_folder ext False of
        Inl err \<Rightarrow> Inl err
      | Inr df_reference \<Rightarrow>
          (case create_table sha os compare_folder ext False of
             Inl err \<Rightarrow> Inl err
           | Inr df_compare \<Rightarrow>
               let ind_duplicates =
                     map (\<lambda>x. map (\<lambda>h. x = h) (map snd df_reference)) (map snd df_compare);
                   duplicate_files = iloc_take df_compare (nonzero_rows ind_duplicates)
               in Inr (drop_duplicates_file duplicate_files)))"

section \<open>Notions of the specification\<close>

text \<open>
  The fixed-size chunks of a stream, as the specification of the hasher speaks of them: the
  stream cut every \<open>n\<close> bytes, the last chunk holding what is left.
\<close>

function chunks :: "nat \<Rightarrow> byte list \<Rightarrow> byte list list" where
  "chunks n s = (if n = 0 \<or> s = [] then [] else take n s # chunks n (drop n s))"
  by pat_completeness auto
termination
  by (relation "measure (\<lambda>(n, s). length s)") auto

text \<open>
  The fingerprint of a path: the digest that \<open>hashfile\<close> returns for it, or the failure
  sentinel when \<open>hashfile\<close> raises.
\<close>

definition fingerprint :: "(byte list \<Rightarrow> byte list) \<Rightarrow> os_state \<Rightarrow> string \<Rightarrow> string" where
  "fingerprint sha os f =
     (case hashfile sha os f default_block_size of Inl err \<Rightarrow> no_hash | Inr digest \<Rightarrow> digest)"

text \<open>The size of the file at a path (\<open>0\<close> where \<^verbatim>\<open>os.path.getsize\<close> raises).\<close>

definition file_size :: "os_state \<Rightarrow> string \<Rightarrow> nat" where
  "file_size os f = (case getsize os f of Inl err \<Rightarrow> 0 | Inr n \<Rightarrow> n)"

text \<open>
  The table builder pairs each path with its fingerprint; the grouper keeps the records whose
  fingerprint the table holds at least twice.
\<close>

definition build_table ::
  "(byte list \<Rightarrow> byte list) \<Rightarrow> os_state \<Rightarrow> string list \<Rightarrow> string frame" where
  "build_table sha os files = map (\<lambda>f. (f, fingerprint sha os f)) files"

definition grouper :: "string frame \<Rightarrow> string frame" where
  "grouper df = filter (\<lambda>r. 2 \<le> count_list (map snd df) (snd r)) df"

text \<open>
  The size pre-selection as a test on one path of a list: the path is a regular file, and its
  size is the size of a regular file at another position of the list.
\<close>

definition preselected :: "os_state \<Rightarrow> string list \<Rightarrow> string \<Rightarrow> bool" where
  "preselected os files f =
     (isfile os f
      \<and> 2 \<le> count_list (map (file_size os) (filter (isfile os) files)) (file_size os f))"

text \<open>
  A path lies under a folder when it starts with the folder and a separator. Two folders are
  apart when neither is the other nor lies under it.
\<close>

definition dir_prefix :: "string \<Rightarrow> string" where
  "dir_prefix folder = (if endswith folder ''/'' then folder else folder @ ''/'')"

definition under :: "string \<Rightarrow> string \<Rightarrow> bool" where
  "under folder f = startswith f (dir_prefix folder)"

definition apart :: "string \<Rightarrow> string \<Rightarrow> bool" where
  "apart a b = (\<not> startswith (dir_prefix a) (dir_prefix b)
                \<and> \<not> startswith (dir_prefix b) (dir_prefix a))"

section \<open>Example file systems\<close>

text \<open>
  A stand-in for SHA-256 at concrete inputs: the message itself (injective, so free of
  collisions). The theorems below hold for every \<open>sha\<close>. In the examples \<^verbatim>\<open>print\<close>
  raises nothing.
\<close>

definition toy_sha :: "byte list \<Rightarrow> byte list" where
  "toy_sha bs = bs"

text \<open>
  \<open>/home/u\<close> with two files of one content, a third of another content and the same size,
  and a fourth of a size of its own.
\<close>

definition home_os :: os_state where
  "home_os =
     \<lparr>root = Directory 4096
        [(''home'', Directory 4096
           [(''u'', Directory 4096
              [(''a.txt'', RegularFile [88] True),
               (''b.txt'', RegularFile [88] True),
               (''c.txt'', RegularFile [89] True),
               (''d.bin'', RegularFile [1, 2, 3] True)])])],
      cwd = ''/home/u'',
      print_error = (\<lambda>text. None)\<rparr>"

text \<open>
  \<open>/srv\<close> with two regular files of different sizes that cannot be opened, a readable
  file, and a dangling link.
\<close>

definition locked_os :: os_state where
  "locked_os =
     \<lparr>root = Directory 4096
        [(''srv'', Directory 4096
           [(''p'', RegularFile [1] False),
            (''q'', RegularFile [1, 2] False),
            (''r'', RegularFile [5] True),
            (''l'', BrokenLink)])],
      cwd = ''/'',
      print_error = (\<lambda>text. None)\<rparr>"

text \<open>
  A reference folder with two files of one content, and a folder to compare with a file of that
  content and a file of another.
\<close>

definition pair_os :: os_state where
  "pair_os =
     \<lparr>root = Directory 4096
        [(''ref'', Directory 4096
           [(''x.txt'', RegularFile [88] True),
            (''x2.txt'', RegularFile [88] True)]),
         (''cmp'', Directory 4096
           [(''y.txt'', RegularFile [88] True),
            (''z.txt'', RegularFile [90] True)])],
      cwd = ''/'',
      print_error = (\<lambda>text. None)\<rparr>"

text \<open>
  \<open>/dev\<close> with two null devices, a regular file on a failing disk, of which one byte can be
  read, and a regular file of a virtual file system, which reports the size 0 and holds a byte.
\<close>

definition device_os :: os_state where
  "device_os =
     \<lparr>root = Directory 4096
        [(''dev'', Directory 4096
           [(''null'', OtherFile False 0 [] False),
            (''null2'', OtherFile False 0 [] False),
            (''disk'', OtherFile True 3 [1] True),
            (''status'', OtherFile True 0 [7] False)])],
      cwd = ''/'',
      print_error = (\<lambda>text. None)\<rparr>"

section \<open>Path normalisation\<close>

lemma str_split_nonempty: "str_split sep s \<noteq> []"
  by (induction s) (auto split: list.splits)

lemma str_split_no_sep: "w \<in> set (str_split sep s) \<Longrightarrow> sep \<notin> set w"
proof (induction s arbitrary: w)
  case Nil
  then show ?case by simp
next
  case (Cons c cs)
  show ?case
  proof (cases "c = sep")
    case True
    with Cons show ?thesis by auto
  next
    case False
    obtain v vs where "str_split sep cs = v # vs"
      using str_split_nonempty [of sep cs] by (cases "str_split sep cs") auto
    with Cons False show ?thesis by auto
  qed
qed

lemma str_split_append_word:
  "sep \<notin> set w \<Longrightarrow>
   str_split sep (w @ s) = (w @ hd (str_split sep s)) # tl (str_split sep s)"
proof (induction w)
  case Nil
  then show ?case using str_split_nonempty [of sep s] by simp
next
  case (Cons c w)
  then show ?case by auto
qed

lemma str_split_join:
  "ws \<noteq> [] \<Longrightarrow> \<forall>w \<in> set ws. sep \<notin> set w \<Longrightarrow> str_split sep (str_join [sep] ws) = ws"
proof (induction "[sep]" ws rule: str_join.induct)
  case 1
  then show ?case by simp
next
  case (2 w)
  then show ?case using str_split_append_word [of sep w "[]"] by simp
next
  case (3 w v ws)
  then show ?case
    using str_split_append_word [of sep w "sep # str_join [sep] (v # ws)"] by simp
qed

lemma str_split_replicate:
  "str_split sep (replicate k sep @ j) = replicate k [] @ str_split sep j"
  by (induction k) auto

lemma normpath_step_plain:
  "islash \<noteq> 0 \<Longrightarrow> \<forall>c \<in> set acc. plain c \<Longrightarrow> CHR ''/'' \<notin> set part \<Longrightarrow>
   \<forall>c \<in> set (normpath_step islash acc part). plain c"
  by (auto simp: normpath_step_def plain_def dest: in_set_butlastD)

lemma foldl_normpath_step_plain:
  "islash \<noteq> 0 \<Longrightarrow> \<forall>c \<in> set acc. plain c \<Longrightarrow> \<forall>c \<in> set comps. CHR ''/'' \<notin> set c \<Longrightarrow>
   \<forall>c \<in> set (foldl (normpath_step islash) acc comps). plain c"
proof (induction comps arbitrary: acc)
  case Nil
  then show ?case by simp
next
  case (Cons part comps)
  have "\<forall>c \<in> set (normpath_step islash acc part). plain c"
    using Cons.prems by (intro normpath_step_plain) auto
  with Cons show ?case by simp
qed

lemma foldl_normpath_step_id:
  "\<forall>c \<in> set comps. plain c \<Longrightarrow> foldl (normpath_step islash) acc comps = acc @ comps"
  by (induction comps arbitrary: acc) (auto simp: normpath_step_def plain_def)

lemma foldl_normpath_step_empties:
  "foldl (normpath_step islash) acc (replicate k []) = acc"
  by (induction k) (auto simp: normpath_step_def)

lemma str_join_plain_start:
  assumes "\<forall>c \<in> set ncs. plain c"
  shows "\<not> startswith (str_join ''/'' ncs) ''/''"
proof (cases ncs)
  case Nil
  then show ?thesis by (simp add: startswith_def)
next
  case (Cons w ws)
  with assms have "plain w" by simp
  then obtain a as where w: "w = a # as" and a: "a \<noteq> CHR ''/''"
    by (cases w) (auto simp: plain_def)
  show ?thesis
    using Cons w a by (cases ws) (simp_all add: startswith_def)
qed

lemma initial_slashes_replicate:
  assumes "k = 1 \<or> k = 2" and "\<not> startswith j ''/''"
  shows "initial_slashes (replicate k CHR ''/'' @ j) = k"
proof -
  have j: "j = [] \<or> hd j \<noteq> CHR ''/''"
    using assms(2) by (cases j) (auto simp: startswith_def)
  from assms(1) show ?thesis
  proof
    assume "k = 1"
    with j show ?thesis
      by (cases j) (auto simp: initial_slashes_def startswith_def)
  next
    assume "k = 2"
    with j show ?thesis
      by (cases j) (auto simp: initial_slashes_def startswith_def numeral_2_eq_2)
  qed
qed

lemma str_split_join_plain:
  assumes "\<forall>c \<in> set ncs. plain c"
  shows "str_split CHR ''/'' (str_join ''/'' ncs) = (if ncs = [] then [[]] else ncs)"
proof (cases "ncs = []")
  case True
  then show ?thesis by simp
next
  case False
  have "\<forall>w \<in> set ncs. CHR ''/'' \<notin> set w"
    using assms by (simp add: plain_def)
  with False show ?thesis
    using str_split_join [of ncs "CHR ''/''"] by simp
qed

text \<open>
  The normal form of an absolute path: one or two slashes, then plain components joined by
  slashes. \<open>normpath\<close> maps every absolute path to this form and leaves the form unchanged.
\<close>

lemma normpath_fixed:
  assumes k: "k = 1 \<or> k = 2" and ncs: "\<forall>c \<in> set ncs. plain c"
  shows "normpath (replicate k CHR ''/'' @ str_join ''/'' ncs)
         = replicate k CHR ''/'' @ str_join ''/'' ncs"
proof -
  let ?j = "str_join ''/'' ncs"
  let ?r = "replicate k CHR ''/'' @ ?j"
  have nonempty: "?r \<noteq> []" using k by auto
  have isl: "initial_slashes ?r = k"
    using k str_join_plain_start [OF ncs] by (rule initial_slashes_replicate)
  have split: "str_split CHR ''/'' ?r = replicate k [] @ (if ncs = [] then [[]] else ncs)"
    by (simp add: str_split_replicate str_split_join_plain [OF ncs])
  have fold: "foldl (normpath_step k) [] (str_split CHR ''/'' ?r) = ncs"
  proof (cases "ncs = []")
    case True
    then show ?thesis
      by (subst split) (simp add: foldl_normpath_step_empties normpath_step_def)
  next
    case False
    then show ?thesis
      using foldl_normpath_step_id [OF ncs, of k "[]"]
      by (subst split) (simp add: foldl_normpath_step_empties)
  qed
  have k0: "k \<noteq> 0" using k by auto
  show ?thesis
    unfolding normpath_def using nonempty k0
    by (simp add: isl fold Let_def)
qed

lemma normpath_abs_form:
  assumes "isabs p"
  shows "\<exists>k ncs. (k = 1 \<or> k = 2) \<and> (\<forall>c \<in> set ncs. plain c) \<and>
           normpath p = replicate k CHR ''/'' @ str_join ''/'' ncs"
proof -
  let ?k = "initial_slashes p"
  let ?ncs = "foldl (normpath_step ?k) [] (str_split CHR ''/'' p)"
  have p: "p \<noteq> []" using assms by (auto simp: isabs_def startswith_def)
  have k: "?k = 1 \<or> ?k = 2"
    using assms by (simp add: isabs_def initial_slashes_def)
  then have k0: "?k \<noteq> 0" by auto
  have plain: "\<forall>c \<in> set ?ncs. plain c"
    using k0 by (intro foldl_normpath_step_plain) (auto dest: str_split_no_sep)
  have res: "replicate ?k CHR ''/'' @ str_join ''/'' ?ncs \<noteq> []"
    using k by auto
  have "normpath p = replicate ?k CHR ''/'' @ str_join ''/'' ?ncs"
    unfolding normpath_def using p k0 res by (simp add: Let_def)
  with k plain show ?thesis by blast
qed

lemma normpath_idem_abs:
  assumes "isabs p"
  shows "normpath (normpath p) = normpath p"
proof -
  obtain k ncs where "k = 1 \<or> k = 2" and "\<forall>c \<in> set ncs. plain c"
    and "normpath p = replicate k CHR ''/'' @ str_join ''/'' ncs"
    using normpath_abs_form [OF assms] by blast
  then show ?thesis by (simp only: normpath_fixed)
qed

lemma isabs_normpath: "isabs p \<Longrightarrow> isabs (normpath p)"
  using normpath_abs_form [of p] by (auto simp: isabs_def startswith_def)

lemma isabs_path_join: "isabs a \<Longrightarrow> isabs (path_join a b)"
  by (cases a) (auto simp: isabs_def path_join_def startswith_def)

lemma str_replace_sep: "str_replace CHR ''/'' os_sep s = s"
  by (induction s) (auto simp: str_replace_def os_sep_def)

lemma format_path_normpath:
  "format_path os file = normpath (if isabs file then file else path_join (cwd os) file)"
  by (simp add: format_path_def abspath_def str_replace_sep)

lemma isabs_format_path: "isabs (cwd os) \<Longrightarrow> isabs (format_path os file)"
  by (simp add: format_path_normpath isabs_normpath isabs_path_join)

lemma format_path_idem:
  assumes "isabs (cwd os)"
  shows "format_path os (format_path os file) = format_path os file"
proof -
  let ?q = "if isabs file then file else path_join (cwd os) file"
  have q: "isabs ?q" using assms by (simp add: isabs_path_join)
  have "format_path os (format_path os file) = normpath (format_path os file)"
    using isabs_format_path [OF assms, of "file"] by (simp add: format_path_normpath)
  also have "\<dots> = normpath (normpath ?q)" by (simp add: format_path_normpath)
  also have "\<dots> = normpath ?q" using q by (rule normpath_idem_abs)
  finally show ?thesis by (simp add: format_path_normpath)
qed

text \<open>
  C10. Path normalisation is idempotent: \<open>format_path\<close> applied to a path it has returned
  returns that path again, for every path string, on POSIX and with the absolute working
  directory that \<^verbatim>\<open>os.getcwd()\<close> reports. So the entry points that normalise their arguments,
  \<open>create_table\<close> and \<open>find_duplicates\<close>, work on a fixed point of the normalisation:
  handing them an argument that is already normalised changes nothing.
\<close>

theorem format_path_idempotent:
  assumes "isabs (cwd os)"
  shows "format_path os (format_path os p) = format_path os p
       \<and> create_table sha os (format_path os folder) ext pre = create_table sha os folder ext pre
       \<and> find_duplicates sort_values sha os (format_path os file) (format_path os folder)
           = find_duplicates sort_values sha os file folder"
  by (simp add: format_path_idem [OF assms] create_table_def find_duplicates_def)

theorem format_path_idempotent_witness:
  "isabs (cwd home_os)
   \<and> format_path home_os ''docs/../a//b/'' = ''/home/u/a/b''
   \<and> format_path home_os (format_path home_os ''docs/../a//b/'') = ''/home/u/a/b''"
proof -
  have abs: "isabs (cwd home_os)"
    by (simp add: home_os_def isabs_def startswith_def)
  have val: "format_path home_os ''docs/../a//b/'' = ''/home/u/a/b''"
    by code_simp
  show ?thesis
    using abs val format_path_idempotent [OF abs, of "''docs/../a//b/''"] by simp
qed

section \<open>The hasher\<close>

declare hash_loop.simps [simp del]
declare chunks.simps [simp del]

lemma hash_loop_empty: "hash_loop block_size [] message m = Inr m"
  by (simp add: hash_loop.simps)

lemma hash_loop_block:
  "block \<noteq> [] \<Longrightarrow>
   hash_loop block_size block message m =
   (case stream_read block_size message of
      Inl err \<Rightarrow> Inl err
    | Inr next_read \<Rightarrow>
        hash_loop block_size (fst next_read) (snd next_read) (sha256_update m block))"
  by (subst hash_loop.simps) simp

lemma stream_read_block:
  "0 < n \<Longrightarrow> stream_read (int n) (s, False) = Inr (take n s, (drop n s, False))"
  by (simp add: stream_read_def)

lemma stream_read_failing:
  "0 < n \<Longrightarrow>
   stream_read (int n) (s, True)
   = (if s = [] then Inl (OSError InputOutputError) else Inr (take n s, (drop n s, True)))"
  by (simp add: stream_read_def)

lemma hash_loop_chunks:
  "0 < n \<Longrightarrow>
   hash_loop (int n) (take n s) (drop n s, False) m
   = Inr (foldl sha256_update m (chunks n s))"
proof (induction n s arbitrary: m rule: chunks.induct)
  case (1 n s)
  show ?case
  proof (cases "s = []")
    case True
    then show ?thesis by (simp add: hash_loop_empty chunks.simps)
  next
    case False
    with \<open>0 < n\<close> have block: "take n s \<noteq> []" by simp
    have "hash_loop (int n) (take n s) (drop n s, False) m
          = hash_loop (int n) (take n (drop n s)) (drop n (drop n s), False)
              (sha256_update m (take n s))"
      using block \<open>0 < n\<close> by (simp add: hash_loop_block stream_read_block)
    also have "\<dots> = Inr (foldl sha256_update (sha256_update m (take n s)) (chunks n (drop n s)))"
      using "1.IH" [of "sha256_update m (take n s)"] False \<open>0 < n\<close> by simp
    also have "\<dots> = Inr (foldl sha256_update m (chunks n s))"
      using False \<open>0 < n\<close> by (subst (2) chunks.simps) simp
    finally show ?thesis .
  qed
qed

lemma concat_chunks: "0 < n \<Longrightarrow> concat (chunks n s) = s"
proof (induction n s rule: chunks.induct)
  case (1 n s)
  then show ?case by (subst chunks.simps) auto
qed

lemma chunks_length: "b \<in> set (chunks n s) \<Longrightarrow> 0 < length b \<and> length b \<le> n"
proof (induction n s rule: chunks.induct)
  case (1 n s)
  from "1.prems" have ne: "\<not> (n = 0 \<or> s = [])"
    by (subst (asm) chunks.simps) (auto split: if_splits)
  from "1.prems" have "b = take n s \<or> b \<in> set (chunks n (drop n s))"
    by (subst (asm) chunks.simps) (auto split: if_splits)
  then show ?case
  proof
    assume "b = take n s"
    with ne show ?thesis by auto
  next
    assume "b \<in> set (chunks n (drop n s))"
    with "1.IH" ne show ?thesis by blast
  qed
qed

lemma chunks_full: "b \<in> set (butlast (chunks n s)) \<Longrightarrow> length b = n"
proof (induction n s rule: chunks.induct)
  case (1 n s)
  from "1.prems" have ne: "\<not> (n = 0 \<or> s = [])"
    by (subst (asm) chunks.simps) (auto split: if_splits)
  show ?case
  proof (cases "chunks n (drop n s) = []")
    case True
    with "1.prems" ne show ?thesis by (subst (asm) chunks.simps) simp
  next
    case False
    then have more: "drop n s \<noteq> []"
      by (subst (asm) chunks.simps) (auto split: if_splits)
    from "1.prems" ne False have "b = take n s \<or> b \<in> set (butlast (chunks n (drop n s)))"
      by (subst (asm) chunks.simps) (auto split: if_splits)
    then show ?thesis
    proof
      assume "b = take n s"
      with more show ?thesis by simp
    next
      assume "b \<in> set (butlast (chunks n (drop n s)))"
      with "1.IH" ne show ?thesis by blast
    qed
  qed
qed

lemma foldl_sha256_update: "foldl sha256_update m bs = m @ concat bs"
  by (induction bs arbitrary: m) (simp_all add: sha256_update_def)

lemma hexlify_chars: "ch \<in> set (hexlify d) \<Longrightarrow> ch \<in> set ''0123456789abcdef''"
proof -
  have digit: "\<And>k. k < 16 \<Longrightarrow> hexdigit k \<in> set ''0123456789abcdef''"
    unfolding hexdigit_def by (rule nth_mem) simp
  assume "ch \<in> set (hexlify d)"
  then obtain b :: byte
    where "ch = hexdigit (unat b div 16) \<or> ch = hexdigit (unat b mod 16)"
    by (auto simp: hexlify_def)
  moreover have "unat b div 16 < 16"
  proof -
    have "unat b < 2 ^ LENGTH(8)" by (rule unsigned_less)
    then show ?thesis by simp
  qed
  moreover have "unat b mod 16 < 16" by simp
  ultimately show ?thesis using digit by blast
qed

lemma length_hexlify: "length (hexlify d) = 2 * length d"
  by (induction d) (simp_all add: hexlify_def)

lemma hashfile_readable:
  assumes "open_rb os file = Inr (c, False)" and "0 < n"
  shows "hashfile sha os file (int n)
         = Inr (sha256_hexdigest sha (foldl sha256_update sha256_new (chunks n c)))"
  using assms by (simp add: hashfile_def stream_read_block hash_loop_chunks)

text \<open>A stream whose last read raises: the loop ends with that error.\<close>

lemma hash_loop_failing:
  "0 < n \<Longrightarrow> block \<noteq> [] \<Longrightarrow>
   hash_loop (int n) block (s, True) m = Inl (OSError InputOutputError)"
proof (induction n s arbitrary: block m rule: chunks.induct)
  case (1 n s)
  show ?case
  proof (cases "s = []")
    case True
    with "1.prems" show ?thesis by (simp add: hash_loop_block stream_read_failing)
  next
    case False
    with "1.prems" have "take n s \<noteq> []" by simp
    with "1.IH" [of "take n s" "sha256_update m block"] False "1.prems"
    show ?thesis by (simp add: hash_loop_block stream_read_failing)
  qed
qed

lemma hashfile_read_fails:
  assumes "open_rb os file = Inr (c, True)" and "0 < n"
  shows "hashfile sha os file (int n) = Inl (OSError InputOutputError)"
  using assms by (simp add: hashfile_def stream_read_failing hash_loop_failing)

lemma hashfile_open_fails:
  "open_rb os file = Inl err \<Longrightarrow> hashfile sha os file block_size = Inl err"
  by (simp add: hashfile_def)


lemma hexdigit_inj: "i < 16 \<Longrightarrow> j < 16 \<Longrightarrow> hexdigit i = hexdigit j \<Longrightarrow> i = j"
proof -
  have "distinct ''0123456789abcdef''" by simp
  moreover have "length ''0123456789abcdef'' = 16" by simp
  ultimately show "i < 16 \<Longrightarrow> j < 16 \<Longrightarrow> hexdigit i = hexdigit j \<Longrightarrow> i = j"
    unfolding hexdigit_def by (metis nth_eq_iff_index_eq)
qed

lemma hex_pair_inj:
  fixes a b :: byte
  assumes "hexdigit (unat a div 16) = hexdigit (unat b div 16)"
    and "hexdigit (unat a mod 16) = hexdigit (unat b mod 16)"
  shows "a = b"
proof -
  have a: "unat a < 2 ^ LENGTH(8)" by (rule unsigned_less)
  have b: "unat b < 2 ^ LENGTH(8)" by (rule unsigned_less)
  have "unat a div 16 = unat b div 16"
    using assms(1) a b by (intro hexdigit_inj) simp_all
  moreover have "unat a mod 16 = unat b mod 16"
    using assms(2) by (intro hexdigit_inj) simp_all
  ultimately have "unat a = unat b"
    by (metis div_mult_mod_eq)
  then show ?thesis by (simp add: word_unat_eq_iff)
qed

lemma hexlify_inj: "hexlify xs = hexlify ys \<Longrightarrow> xs = ys"
proof (induction xs arbitrary: ys)
  case Nil
  then show ?case by (cases ys) (simp_all add: hexlify_def)
next
  case (Cons a xs)
  then obtain b ys' where ys: "ys = b # ys'"
    by (cases ys) (simp_all add: hexlify_def)
  from Cons.prems ys have "a = b" and "hexlify xs = hexlify ys'"
    by (auto simp: hexlify_def intro: hex_pair_inj)
  with Cons.IH ys show ?case by simp
qed

lemma no_hash_not_hex: "hexlify d \<noteq> no_hash"
proof
  assume "hexlify d = no_hash"
  moreover have "CHR ''N'' \<in> set no_hash" by (simp add: no_hash_def)
  ultimately have "CHR ''N'' \<in> set ''0123456789abcdef''"
    using hexlify_chars [of "CHR ''N''" d] by simp
  then show False by simp
qed

lemma open_rb_regular:
  "resolve os file = Inr (RegularFile c True) \<Longrightarrow> open_rb os file = Inr (c, False)"
  by (simp add: open_rb_def)

lemma hashfile_regular:
  assumes "resolve os file = Inr (RegularFile c True)"
  shows "hashfile sha os file default_block_size = Inr (hexlify (sha c))"
proof -
  have opened: "open_rb os file = Inr (c, False)"
    using assms by (rule open_rb_regular)
  have "hashfile sha os file (int 65536)
        = Inr (sha256_hexdigest sha (foldl sha256_update sha256_new (chunks 65536 c)))"
    by (rule hashfile_readable [OF opened]) simp
  then show ?thesis
    by (simp add: default_block_size_def foldl_sha256_update concat_chunks sha256_new_def
        sha256_hexdigest_def)
qed

text \<open>
  C1. For every readable file, that is, a path that leads to a regular file which can be
  opened, \<open>hashfile\<close> with its block size of 65536 returns the lowercase hexadecimal digest of
  the whole content: the loop feeds the hash object the chunks of 65536 bytes of the content in
  order (each holds at least one byte and at most 65536, every chunk but the last exactly
  65536), their concatenation is the content, and the result is two digits from
  \<open>0123456789abcdef\<close> for each byte of the digest.
\<close>

theorem hashfile_digest_of_content:
  assumes "resolve os file = Inr (RegularFile c True)"
  shows "hashfile sha os file default_block_size = Inr (hexlify (sha c))
       \<and> hashfile sha os file default_block_size
           = Inr (sha256_hexdigest sha (foldl sha256_update sha256_new (chunks 65536 c)))
       \<and> concat (chunks 65536 c) = c
       \<and> (\<forall>b \<in> set (chunks 65536 c). 0 < length b \<and> length b \<le> 65536)
       \<and> (\<forall>b \<in> set (butlast (chunks 65536 c)). length b = 65536)
       \<and> length (hexlify (sha c)) = 2 * length (sha c)
       \<and> (\<forall>ch \<in> set (hexlify (sha c)). ch \<in> set ''0123456789abcdef'')"
proof -
  have opened: "open_rb os file = Inr (c, False)"
    using assms by (rule open_rb_regular)
  have size: "default_block_size = int 65536"
    by (simp add: default_block_size_def)
  have fed: "hashfile sha os file default_block_size
             = Inr (sha256_hexdigest sha (foldl sha256_update sha256_new (chunks 65536 c)))"
    unfolding size by (rule hashfile_readable [OF opened]) simp
  have whole: "concat (chunks 65536 c) = c"
    by (rule concat_chunks) simp
  have "foldl sha256_update sha256_new (chunks 65536 c) = c"
    by (simp add: foldl_sha256_update whole sha256_new_def)
  with fed have digest: "hashfile sha os file default_block_size = Inr (hexlify (sha c))"
    by (simp add: sha256_hexdigest_def)
  have sizes: "\<forall>b \<in> set (chunks 65536 c). 0 < length b \<and> length b \<le> 65536"
    using chunks_length by blast
  have full: "\<forall>b \<in> set (butlast (chunks 65536 c)). length b = 65536"
    using chunks_full by blast
  have hex: "\<forall>ch \<in> set (hexlify (sha c)). ch \<in> set ''0123456789abcdef''"
    using hexlify_chars by blast
  from digest fed whole sizes full length_hexlify hex show ?thesis
    by (intro conjI)
qed

theorem hashfile_digest_of_content_witness:
  "resolve home_os ''/home/u/d.bin'' = Inr (RegularFile [1, 2, 3] True)
   \<and> hashfile toy_sha home_os ''/home/u/d.bin'' default_block_size = Inr ''010203''
   \<and> chunks 65536 [1, 2, 3] = [[1, 2, 3]]"
proof -
  have found: "resolve home_os ''/home/u/d.bin'' = Inr (RegularFile [1, 2, 3] True)"
    by (simp add: resolve_def home_os_def isabs_def startswith_def)
  have hex: "hexlify (toy_sha [1, 2, 3]) = ''010203''"
    by code_simp
  have blocks: "chunks 65536 [1, 2, 3] = [[1, 2, 3]]"
    by (simp add: chunks.simps)
  show ?thesis
    using found blocks hashfile_digest_of_content [OF found, of toy_sha] by (simp add: hex)
qed

text \<open>
  C2. The fingerprint depends on the content alone. Two readable files, at any two paths and
  in any two states of the file system, that hold the same bytes get the same fingerprint from
  \<open>hashfile\<close>; two that hold different bytes get different fingerprints, provided SHA-256
  does not collide on the two contents.
\<close>

theorem hashfile_deterministic:
  assumes "resolve os1 file1 = Inr (RegularFile c1 True)"
    and "resolve os2 file2 = Inr (RegularFile c2 True)"
  shows "(c1 = c2 \<longrightarrow>
            hashfile sha os1 file1 default_block_size = hashfile sha os2 file2 default_block_size)
       \<and> (inj_on sha {c1, c2} \<longrightarrow> c1 \<noteq> c2 \<longrightarrow>
            hashfile sha os1 file1 default_block_size \<noteq> hashfile sha os2 file2 default_block_size)"
proof -
  have one: "hashfile sha os1 file1 default_block_size = Inr (hexlify (sha c1))"
    using assms(1) by (rule hashfile_regular)
  have two: "hashfile sha os2 file2 default_block_size = Inr (hexlify (sha c2))"
    using assms(2) by (rule hashfile_regular)
  have "sha c1 \<noteq> sha c2" if "inj_on sha {c1, c2}" and "c1 \<noteq> c2"
    using that by (auto simp: inj_on_def)
  then show ?thesis
    using one two by (auto dest: hexlify_inj)
qed

theorem hashfile_deterministic_witness:
  "resolve home_os ''/home/u/a.txt'' = Inr (RegularFile [88] True)
   \<and> resolve home_os ''b.txt'' = Inr (RegularFile [88] True)
   \<and> resolve home_os ''/home/u/c.txt'' = Inr (RegularFile [89] True)
   \<and> inj_on toy_sha {[88], [89]}
   \<and> hashfile toy_sha home_os ''/home/u/a.txt'' default_block_size
       = hashfile toy_sha home_os ''b.txt'' default_block_size
   \<and> hashfile toy_sha home_os ''/home/u/a.txt'' default_block_size
       \<noteq> hashfile toy_sha home_os ''/home/u/c.txt'' default_block_size"
proof -
  have a: "resolve home_os ''/home/u/a.txt'' = Inr (RegularFile [88] True)"
    by (simp add: resolve_def home_os_def isabs_def startswith_def)
  have b: "resolve home_os ''b.txt'' = Inr (RegularFile [88] True)"
    by (simp add: resolve_def home_os_def isabs_def startswith_def)
  have c: "resolve home_os ''/home/u/c.txt'' = Inr (RegularFile [89] True)"
    by (simp add: resolve_def home_os_def isabs_def startswith_def)
  have inj: "inj_on toy_sha {[88], [89]}"
    by (simp add: inj_on_def toy_sha_def)
  show ?thesis
    using a b c inj hashfile_deterministic [OF a b, of toy_sha]
      hashfile_deterministic [OF a c, of toy_sha]
    by simp
qed

section \<open>The batch of hashes\<close>

lemma open_rb_regular_iff:
  "resolve os file = Inr (RegularFile c True) \<Longrightarrow> open_rb os file = Inr (c', bad) \<longleftrightarrow> c' = c \<and> \<not> bad"
  by (auto simp: open_rb_def)

lemma hashfile_opened:
  "open_rb os file = Inr (c, False) \<Longrightarrow>
   hashfile sha os file default_block_size = Inr (hexlify (sha c))"
proof -
  assume "open_rb os file = Inr (c, False)"
  then have "hashfile sha os file (int 65536)
        = Inr (sha256_hexdigest sha (foldl sha256_update sha256_new (chunks 65536 c)))"
    by (rule hashfile_readable) simp
  then show ?thesis
    by (simp add: default_block_size_def foldl_sha256_update concat_chunks sha256_new_def
        sha256_hexdigest_def)
qed

lemma hashfile_unread:
  "open_rb os file = Inr (c, True) \<Longrightarrow>
   hashfile sha os file default_block_size = Inl (OSError InputOutputError)"
proof -
  assume "open_rb os file = Inr (c, True)"
  then have "hashfile sha os file (int 65536) = Inl (OSError InputOutputError)"
    by (rule hashfile_read_fails) simp
  then show ?thesis by (simp add: default_block_size_def)
qed

lemma resolve_ValueError: "resolve os path = Inl ValueError \<longleftrightarrow> CHR 0x00 \<in> set path"
  by (auto simp: resolve_def split: sum.splits)

lemma open_rb_ValueError: "open_rb os path = Inl ValueError \<longleftrightarrow> CHR 0x00 \<in> set path"
proof (cases "resolve os path")
  case (Inl err)
  then show ?thesis using resolve_ValueError [of os path] by (simp add: open_rb_def)
next
  case (Inr n)
  then show ?thesis
    using resolve_ValueError [of os path] by (cases n) (simp_all add: open_rb_def)
qed

text \<open>With its block size of 65536, \<open>hashfile\<close> raises a \<open>ValueError\<close> for a path with a
  null character and for no other.\<close>

lemma hashfile_ValueError:
  "hashfile sha os f default_block_size = Inl ValueError \<longleftrightarrow> CHR 0x00 \<in> set f"
proof (cases "open_rb os f")
  case (Inl err)
  then show ?thesis using open_rb_ValueError [of os f] by (simp add: hashfile_open_fails)
next
  case (Inr message)
  obtain c bad where message: "message = (c, bad)" by (cases message)
  show ?thesis
  proof (cases bad)
    case True
    with Inr message show ?thesis
      using open_rb_ValueError [of os f] by (simp add: hashfile_unread)
  next
    case False
    with Inr message show ?thesis
      using open_rb_ValueError [of os f] by (simp add: hashfile_opened)
  qed
qed

lemma fingerprint_opened:
  "open_rb os f = Inr (c, False) \<Longrightarrow> fingerprint sha os f = hexlify (sha c)"
  by (simp add: fingerprint_def hashfile_opened)

lemma fingerprint_unread: "open_rb os f = Inr (c, True) \<Longrightarrow> fingerprint sha os f = no_hash"
  by (simp add: fingerprint_def hashfile_unread)

lemma fingerprint_unopened: "open_rb os f = Inl err \<Longrightarrow> fingerprint sha os f = no_hash"
  by (simp add: fingerprint_def hashfile_open_fails)

text \<open>What \<open>hashtable\<close> puts in the slot of a path, and when it returns.\<close>

lemma hashtable_loop_step:
  assumes "print_error os f = None" and "CHR 0x00 \<notin> set f"
  shows "hashtable_loop sha os (f # files) hash_identifier
         = hashtable_loop sha os files (hash_identifier @ [fingerprint sha os f])"
proof (cases "hashfile sha os f default_block_size")
  case (Inl err)
  with assms(2) hashfile_ValueError [of sha os f] obtain e where "err = OSError e"
    by (cases err) auto
  with Inl assms(1) show ?thesis by (simp add: fingerprint_def)
next
  case (Inr digest)
  with assms(1) show ?thesis by (simp add: fingerprint_def)
qed

lemma hashtable_loop_returns:
  "\<forall>f \<in> set files. print_error os f = None \<and> CHR 0x00 \<notin> set f \<Longrightarrow>
   hashtable_loop sha os files hash_identifier
   = Inr (hash_identifier @ map (fingerprint sha os) files)"
proof (induction files arbitrary: hash_identifier)
  case Nil
  then show ?case by simp
next
  case (Cons f files)
  then have "print_error os f = None" and "CHR 0x00 \<notin> set f" by simp_all
  then have "hashtable_loop sha os (f # files) hash_identifier
             = hashtable_loop sha os files (hash_identifier @ [fingerprint sha os f])"
    by (rule hashtable_loop_step)
  with Cons show ?case by simp
qed

lemma hashtable_loop_returned:
  "hashtable_loop sha os files hash_identifier = Inr hashes \<Longrightarrow>
   hashes = hash_identifier @ map (fingerprint sha os) files"
proof (induction files arbitrary: hash_identifier)
  case Nil
  then show ?case by simp
next
  case (Cons f files)
  from Cons.prems have printed: "print_error os f = None"
    by (cases "print_error os f") simp_all
  have "CHR 0x00 \<notin> set f"
  proof
    assume "CHR 0x00 \<in> set f"
    then have "hashfile sha os f default_block_size = Inl ValueError"
      by (simp only: hashfile_ValueError)
    with Cons.prems printed show False by simp
  qed
  with printed have "hashtable_loop sha os (f # files) hash_identifier
             = hashtable_loop sha os files (hash_identifier @ [fingerprint sha os f])"
    by (rule hashtable_loop_step)
  with Cons.prems have "hashtable_loop sha os files (hash_identifier @ [fingerprint sha os f])
                        = Inr hashes"
    by simp
  then have "hashes = (hash_identifier @ [fingerprint sha os f]) @ map (fingerprint sha os) files"
    by (rule Cons.IH)
  then show ?case by simp
qed

lemma hashtable_returns:
  "\<forall>f \<in> set files. print_error os f = None \<and> CHR 0x00 \<notin> set f \<Longrightarrow>
   hashtable sha os (Many files) = Inr (map (fingerprint sha os) files)"
  by (simp add: hashtable_def hashtable_loop_returns)

lemma hashtable_returned:
  "hashtable sha os (Many files) = Inr hashes \<Longrightarrow> hashes = map (fingerprint sha os) files"
  using hashtable_loop_returned [of sha os files "[]" hashes] by (simp add: hashtable_def)

lemma hashtable_single_returned:
  "hashtable sha os (Single f) = Inr hashes \<Longrightarrow> hashes = [fingerprint sha os f]"
  using hashtable_loop_returned [of sha os "[f]" "[]" hashes] by (simp add: hashtable_def)

lemma hashtable_single_returns:
  "print_error os f = None \<Longrightarrow> CHR 0x00 \<notin> set f \<Longrightarrow>
   hashtable sha os (Single f) = Inr [fingerprint sha os f]"
  using hashtable_loop_returns [of "[f]" os sha "[]"] by (simp add: hashtable_def)

text \<open>
  C6, as amended. For every list of paths none of which holds a null character, and when the
  print of each path raises nothing, \<open>hashtable\<close> returns a list of the same length: the slot
  of a file that can be opened and read to its end holds the digest of its content, the slot of
  a file for which \<^verbatim>\<open>open\<close> or a \<^verbatim>\<open>read\<close> raises an \<open>OSError\<close> holds the sentinel, and
  the paths after such a failure are processed like the others. The sentinel is no hexadecimal
  encoding of any bytes and does not have 64 characters, so it is no valid digest.
\<close>

theorem hashtable_error_recovery:
  assumes "\<forall>f \<in> set files. print_error os f = None"
    and "\<forall>f \<in> set files. CHR 0x00 \<notin> set f"
  shows "(\<exists>hashes. hashtable sha os (Many files) = Inr hashes
      \<and> length hashes = length files
      \<and> (\<forall>i < length files.
            (\<forall>c. open_rb os (files ! i) = Inr (c, False) \<longrightarrow> hashes ! i = hexlify (sha c))
          \<and> (\<forall>c. open_rb os (files ! i) = Inr (c, True) \<longrightarrow> hashes ! i = no_hash)
          \<and> (\<forall>e. open_rb os (files ! i) = Inl (OSError e) \<longrightarrow> hashes ! i = no_hash)))
   \<and> (\<forall>d. hexlify d \<noteq> no_hash)
   \<and> length no_hash \<noteq> 64"
proof -
  let ?hashes = "map (fingerprint sha os) files"
  have "hashtable sha os (Many files) = Inr ?hashes"
    using assms by (intro hashtable_returns) simp
  moreover have "length ?hashes = length files" by simp
  moreover have "\<forall>i < length files.
      (\<forall>c. open_rb os (files ! i) = Inr (c, False) \<longrightarrow> ?hashes ! i = hexlify (sha c))
    \<and> (\<forall>c. open_rb os (files ! i) = Inr (c, True) \<longrightarrow> ?hashes ! i = no_hash)
    \<and> (\<forall>e. open_rb os (files ! i) = Inl (OSError e) \<longrightarrow> ?hashes ! i = no_hash)"
    by (simp add: fingerprint_opened fingerprint_unread fingerprint_unopened)
  moreover have "\<forall>d. hexlify d \<noteq> no_hash"
    by (simp add: no_hash_not_hex)
  moreover have "length no_hash \<noteq> 64"
    by (simp add: no_hash_def)
  ultimately show ?thesis by blast
qed

theorem hashtable_error_recovery_witness:
  "open_rb locked_os ''/srv/p'' = Inl (OSError PermissionError)
   \<and> open_rb device_os ''/dev/disk'' = Inr ([1], True)
   \<and> open_rb locked_os ''/srv/r'' = Inr ([5], False)
   \<and> hashtable toy_sha locked_os (Many [''/srv/p'', ''/srv/r'']) = Inr [no_hash, ''05'']
   \<and> hashtable toy_sha device_os (Many [''/dev/disk'', ''/dev/status'']) = Inr [no_hash, ''07'']"
proof -
  have p: "open_rb locked_os ''/srv/p'' = Inl (OSError PermissionError)"
    by (simp add: open_rb_def resolve_def locked_os_def isabs_def startswith_def)
  have r: "open_rb locked_os ''/srv/r'' = Inr ([5], False)"
    by (simp add: open_rb_def resolve_def locked_os_def isabs_def startswith_def)
  have disk: "open_rb device_os ''/dev/disk'' = Inr ([1], True)"
    by (simp add: open_rb_def resolve_def device_os_def isabs_def startswith_def)
  have status: "open_rb device_os ''/dev/status'' = Inr ([7], False)"
    by (simp add: open_rb_def resolve_def device_os_def isabs_def startswith_def)
  have hex: "hexlify (toy_sha [5]) = ''05''" "hexlify (toy_sha [7]) = ''07''"
    by (simp_all add: hexlify_def toy_sha_def hexdigit_def)
  have two: "hashes = [hashes ! 0, hashes ! 1]" if "length hashes = length [a, b]"
    for hashes :: "string list" and a b :: string
    using that by (auto simp: length_Suc_conv)
  have locked: "hashtable toy_sha locked_os (Many [''/srv/p'', ''/srv/r'']) = Inr [no_hash, ''05'']"
  proof -
    let ?files = "[''/srv/p'', ''/srv/r'']"
    have printed: "\<forall>f \<in> set ?files. print_error locked_os f = None"
      by (simp add: locked_os_def)
    have clean: "\<forall>f \<in> set ?files. CHR 0x00 \<notin> set f" by simp
    obtain hashes where res: "hashtable toy_sha locked_os (Many ?files) = Inr hashes"
      and len: "length hashes = length ?files"
      and slots: "\<forall>i < length ?files.
            (\<forall>c. open_rb locked_os (?files ! i) = Inr (c, False)
                   \<longrightarrow> hashes ! i = hexlify (toy_sha c))
          \<and> (\<forall>c. open_rb locked_os (?files ! i) = Inr (c, True) \<longrightarrow> hashes ! i = no_hash)
          \<and> (\<forall>e. open_rb locked_os (?files ! i) = Inl (OSError e) \<longrightarrow> hashes ! i = no_hash)"
      using hashtable_error_recovery [OF printed clean, of toy_sha] by blast
    from slots p have "hashes ! 0 = no_hash" by force
    moreover from slots r hex have "hashes ! 1 = ''05''" by force
    ultimately have "hashes = [no_hash, ''05'']" using two [OF len] by simp
    with res show ?thesis by simp
  qed
  have device: "hashtable toy_sha device_os (Many [''/dev/disk'', ''/dev/status''])
                = Inr [no_hash, ''07'']"
  proof -
    let ?files = "[''/dev/disk'', ''/dev/status'']"
    have printed: "\<forall>f \<in> set ?files. print_error device_os f = None"
      by (simp add: device_os_def)
    have clean: "\<forall>f \<in> set ?files. CHR 0x00 \<notin> set f" by simp
    obtain hashes where res: "hashtable toy_sha device_os (Many ?files) = Inr hashes"
      and len: "length hashes = length ?files"
      and slots: "\<forall>i < length ?files.
            (\<forall>c. open_rb device_os (?files ! i) = Inr (c, False)
                   \<longrightarrow> hashes ! i = hexlify (toy_sha c))
          \<and> (\<forall>c. open_rb device_os (?files ! i) = Inr (c, True) \<longrightarrow> hashes ! i = no_hash)
          \<and> (\<forall>e. open_rb device_os (?files ! i) = Inl (OSError e) \<longrightarrow> hashes ! i = no_hash)"
      using hashtable_error_recovery [OF printed clean, of toy_sha] by blast
    from slots disk have "hashes ! 0 = no_hash" by force
    moreover from slots status hex have "hashes ! 1 = ''07''" by force
    ultimately have "hashes = [no_hash, ''07'']" using two [OF len] by simp
    with res show ?thesis by simp
  qed
  from p disk r locked device show ?thesis by (intro conjI)
qed

text \<open>
  C6 as stated, for every list of paths, fails: a path with a null character makes
  \<^verbatim>\<open>open\<close> raise a \<open>ValueError\<close>, which the \<^verbatim>\<open>except OSError\<close> does not catch; the
  batch is aborted, and the readable file after it is not processed.
\<close>

theorem hashtable_aborted_by_null_character:
  "open_rb locked_os (''/srv/p'' @ [CHR 0x00]) = Inl ValueError
   \<and> open_rb locked_os ''/srv/r'' = Inr ([5], False)
   \<and> hashtable toy_sha locked_os (Many [''/srv/p'' @ [CHR 0x00], ''/srv/r'']) = Inl ValueError"
proof -
  have bad: "open_rb locked_os (''/srv/p'' @ [CHR 0x00]) = Inl ValueError"
    by (simp add: open_rb_ValueError)
  have r: "open_rb locked_os ''/srv/r'' = Inr ([5], False)"
    by (simp add: open_rb_def resolve_def locked_os_def isabs_def startswith_def)
  have "hashfile toy_sha locked_os (''/srv/p'' @ [CHR 0x00]) default_block_size = Inl ValueError"
    by (simp add: hashfile_ValueError)
  then have "hashtable toy_sha locked_os (Many [''/srv/p'' @ [CHR 0x00], ''/srv/r''])
             = Inl ValueError"
    by (simp add: hashtable_def locked_os_def)
  with bad r show ?thesis by (intro conjI)
qed

section \<open>Masks and duplicated values\<close>

lemma foldl_append_if:
  "foldl (\<lambda>acc x. if p x then acc @ [x] else acc) acc xs = acc @ filter p xs"
  by (induction xs arbitrary: acc) simp_all

lemma boolean_mask_map: "boolean_mask rows (map p rows) = filter p rows"
  unfolding boolean_mask_def by (induction rows) simp_all

lemma boolean_mask_duplicated:
  "boolean_mask df (duplicated_keep_false (map snd df))
   = filter (\<lambda>r. 2 \<le> count_list (map snd df) (snd r)) df"
proof -
  have "duplicated_keep_false (map snd df)
        = map (\<lambda>r. 2 \<le> count_list (map snd df) (snd r)) df"
    by (simp add: duplicated_keep_false_def)
  then show ?thesis by (simp only: boolean_mask_map)
qed

lemma map_fst_filter_zip_map:
  "map fst (filter (\<lambda>r. q (snd r)) (zip xs (map g xs))) = filter (\<lambda>x. q (g x)) xs"
  by (induction xs) simp_all

text \<open>A value occurs twice in a list exactly when it occurs at two positions.\<close>

lemma count_list_distinct: "distinct xs \<Longrightarrow> count_list xs x \<le> 1"
  by (induction xs) auto

lemma count_list_two_iff:
  assumes "i < length xs"
  shows "2 \<le> count_list xs (xs ! i) \<longleftrightarrow> (\<exists>j < length xs. j \<noteq> i \<and> xs ! j = xs ! i)"
proof -
  define S where "S = {j. j < length xs \<and> xs ! i = xs ! j}"
  have fin: "finite S" by (simp add: S_def)
  have i: "i \<in> S" using assms by (simp add: S_def)
  have count: "count_list xs (xs ! i) = card S"
    unfolding S_def by (simp only: count_list_eq_length_filter length_filter_conv_card)
  show ?thesis
  proof
    assume "2 \<le> count_list xs (xs ! i)"
    then have "card S \<noteq> 1" using count by simp
    then have "S \<noteq> {i}" by auto
    with i obtain j where "j \<in> S" and "j \<noteq> i" by blast
    then show "\<exists>j < length xs. j \<noteq> i \<and> xs ! j = xs ! i" by (auto simp: S_def)
  next
    assume "\<exists>j < length xs. j \<noteq> i \<and> xs ! j = xs ! i"
    then obtain j where "j < length xs" and "xs ! j = xs ! i" and "j \<noteq> i" by blast
    then have j: "j \<in> S" "j \<noteq> i" by (simp_all add: S_def)
    with i have "{i, j} \<subseteq> S" by blast
    with fin have "card {i, j} \<le> card S" by (rule card_mono)
    moreover have "card {i, j} = 2" using j(2) by simp
    ultimately show "2 \<le> count_list xs (xs ! i)" using count by simp
  qed
qed

section \<open>Pre-selection by size\<close>

lemma isfile_getsize: "isfile os f \<Longrightarrow> getsize os f = Inr (file_size os f)"
  by (auto simp: isfile_def getsize_def file_size_def split: sum.splits)

lemma getsizes_files:
  "\<forall>f \<in> set files. isfile os f \<Longrightarrow> getsizes os files = Inr (map (file_size os) files)"
  by (induction files) (simp_all add: isfile_getsize)

lemma preselect_filter:
  "preselect os input_files =
   Inr (filter (\<lambda>f. 2 \<le> count_list (map (file_size os) (filter (isfile os) input_files))
                         (file_size os f))
          (filter (isfile os) input_files))"
proof -
  let ?checked = "filter (isfile os) input_files"
  let ?sizes = "map (file_size os) ?checked"
  have checked: "foldl (\<lambda>checked_files file.
                     if isfile os file then checked_files @ [file] else checked_files)
                  [] input_files = ?checked"
    by (simp add: foldl_append_if)
  have sizes: "getsizes os ?checked = Inr ?sizes"
    by (rule getsizes_files) simp
  have "map fst (boolean_mask (zip ?checked ?sizes)
                   (duplicated_keep_false (map snd (zip ?checked ?sizes))))
        = filter (\<lambda>f. 2 \<le> count_list ?sizes (file_size os f)) ?checked"
    by (simp only: boolean_mask_duplicated)
       (simp add: map_fst_filter_zip_map [of "\<lambda>n. 2 \<le> count_list ?sizes n"])
  then show ?thesis
    unfolding preselect_def checked by (simp add: sizes Let_def)
qed

text \<open>
  C9. For every list of paths, \<open>preselect\<close> returns: it first drops the paths that are not
  regular files, takes the size of each path left, and keeps exactly those paths left whose size
  is the size of at least one other of them, in their order. When the sizes of the paths left
  are pairwise distinct, the result is empty.
\<close>

theorem preselect_by_size:
  fixes os :: os_state and input_files :: "string list"
  defines "checked \<equiv> filter (isfile os) input_files"
  defines "sizes \<equiv> map (file_size os) checked"
  shows "preselect os input_files
           = Inr (map fst (filter (\<lambda>(f, n). 2 \<le> count_list sizes n) (zip checked sizes)))
       \<and> (\<forall>f \<in> set checked. getsize os f = Inr (file_size os f))
       \<and> (\<forall>i < length checked.
             2 \<le> count_list sizes (sizes ! i)
             \<longleftrightarrow> (\<exists>j < length checked. j \<noteq> i \<and> sizes ! j = sizes ! i))
       \<and> (distinct sizes \<longrightarrow> preselect os input_files = Inr [])"
proof -
  have kept: "map fst (filter (\<lambda>(f, n). 2 \<le> count_list sizes n) (zip checked sizes))
              = filter (\<lambda>f. 2 \<le> count_list sizes (file_size os f)) checked"
    using map_fst_filter_zip_map [of "\<lambda>n. 2 \<le> count_list sizes n" checked "file_size os"]
    by (simp add: sizes_def case_prod_unfold)
  have result: "preselect os input_files
        = Inr (filter (\<lambda>f. 2 \<le> count_list sizes (file_size os f)) checked)"
    unfolding sizes_def checked_def by (rule preselect_filter)
  have stat: "\<forall>f \<in> set checked. getsize os f = Inr (file_size os f)"
    by (simp add: checked_def isfile_getsize)
  have other: "\<forall>i < length checked.
             2 \<le> count_list sizes (sizes ! i)
             \<longleftrightarrow> (\<exists>j < length checked. j \<noteq> i \<and> sizes ! j = sizes ! i)"
    using count_list_two_iff [of _ sizes] by (simp add: sizes_def)
  have "preselect os input_files = Inr []" if "distinct sizes"
  proof -
    have "\<not> 2 \<le> count_list sizes n" for n
      using count_list_distinct [OF that, of n] by simp
    then show ?thesis by (simp add: result)
  qed
  then have none: "distinct sizes \<longrightarrow> preselect os input_files = Inr []" ..
  from result kept have "preselect os input_files
           = Inr (map fst (filter (\<lambda>(f, n). 2 \<le> count_list sizes n) (zip checked sizes)))"
    by (simp only:)
  with stat other none show ?thesis by (intro conjI)
qed

theorem preselect_by_size_witness:
  "filter (isfile home_os) [''a.txt'', ''nowhere'', ''d.bin'', ''/home/u'', ''c.txt'']
     = [''a.txt'', ''d.bin'', ''c.txt'']
   \<and> map (file_size home_os) [''a.txt'', ''d.bin'', ''c.txt''] = [1, 3, 1]
   \<and> preselect home_os [''a.txt'', ''nowhere'', ''d.bin'', ''/home/u'', ''c.txt'']
       = Inr [''a.txt'', ''c.txt'']
   \<and> preselect home_os [''a.txt'', ''nowhere'', ''d.bin''] = Inr []"
proof -
  have stat:
    "os_stat home_os ''a.txt'' = Inr (S_IFREG, 1)"
    "os_stat home_os ''c.txt'' = Inr (S_IFREG, 1)"
    "os_stat home_os ''d.bin'' = Inr (S_IFREG, 3)"
    "os_stat home_os ''nowhere'' = Inl (OSError FileNotFoundError)"
    "os_stat home_os ''/home/u'' = Inr (S_IFDIR, 4096)"
    by (simp_all add: os_stat_def resolve_def home_os_def isabs_def startswith_def)
  have checked: "filter (isfile home_os) [''a.txt'', ''nowhere'', ''d.bin'', ''/home/u'', ''c.txt'']
     = [''a.txt'', ''d.bin'', ''c.txt'']"
    by (simp add: isfile_def stat)
  have sizes: "map (file_size home_os) [''a.txt'', ''d.bin'', ''c.txt''] = [1, 3, 1]"
    by (simp add: file_size_def getsize_def stat)
  have checked': "filter (isfile home_os) [''a.txt'', ''nowhere'', ''d.bin''] = [''a.txt'', ''d.bin'']"
    by (simp add: isfile_def stat)
  have sizes': "map (file_size home_os) [''a.txt'', ''d.bin''] = [1, 3]"
    by (simp add: file_size_def getsize_def stat)
  have "preselect home_os [''a.txt'', ''nowhere'', ''d.bin'', ''/home/u'', ''c.txt'']
        = Inr (map fst (filter (\<lambda>(f, n). 2 \<le> count_list [1, 3, 1 :: nat] n)
                 (zip [''a.txt'', ''d.bin'', ''c.txt''] [1, 3, 1 :: nat])))"
    using preselect_by_size
      [of home_os "[''a.txt'', ''nowhere'', ''d.bin'', ''/home/u'', ''c.txt'']", THEN conjunct1]
    by (simp only: checked sizes)
  then have "preselect home_os [''a.txt'', ''nowhere'', ''d.bin'', ''/home/u'', ''c.txt'']
       = Inr [''a.txt'', ''c.txt'']"
    by simp
  moreover have "preselect home_os [''a.txt'', ''nowhere'', ''d.bin'']
        = Inr (map fst (filter (\<lambda>(f, n). 2 \<le> count_list [1, 3 :: nat] n)
                 (zip [''a.txt'', ''d.bin''] [1, 3 :: nat])))"
    using preselect_by_size [of home_os "[''a.txt'', ''nowhere'', ''d.bin'']", THEN conjunct1]
    by (simp only: checked' sizes')
  then have "preselect home_os [''a.txt'', ''nowhere'', ''d.bin''] = Inr []"
    by simp
  ultimately show ?thesis using checked sizes by (intro conjI)
qed

section \<open>Tables and the grouper\<close>

lemma zip_map_self: "zip xs (map g xs) = map (\<lambda>x. (x, g x)) xs"
  by (induction xs) simp_all

lemma preselect_preselected: "preselect os files = Inr (filter (preselected os files) files)"
proof -
  have "filter (preselected os files) files
        = filter (\<lambda>f. isfile os f
                     \<and> 2 \<le> count_list (map (file_size os) (filter (isfile os) files))
                            (file_size os f)) files"
    by (rule filter_cong) (simp_all add: preselected_def)
  also have "\<dots> = filter (\<lambda>f. 2 \<le> count_list (map (file_size os) (filter (isfile os) files))
                         (file_size os f))
            (filter (isfile os) files)"
    by (simp add: conj_commute)
  finally show ?thesis by (simp only: preselect_filter)
qed

text \<open>The files that \<open>create_table\<close> hashes, of those that \<open>filelist\<close> lists.\<close>

lemma create_table_returned:
  assumes "create_table sha os folder ext pre = Inr t"
  shows "\<exists>files. filelist os (format_path os folder) ext = Inr files
           \<and> t = build_table sha os (if pre then filter (preselected os files) files else files)"
proof -
  obtain files where files: "filelist os (format_path os folder) ext = Inr files"
    using assms by (cases "filelist os (format_path os folder) ext") (simp_all add: create_table_def)
  let ?input = "if pre then filter (preselected os files) files else files"
  have input: "(if pre then preselect os files else Inr files) = Inr ?input"
    by (simp add: preselect_preselected)
  obtain hashes where hashes: "hashtable sha os (Many ?input) = Inr hashes"
    using assms files input
    by (cases "hashtable sha os (Many ?input)") (simp_all add: create_table_def)
  then have "hashes = map (fingerprint sha os) ?input" by (rule hashtable_returned)
  with assms files input hashes have "t = build_table sha os ?input"
    by (simp add: create_table_def build_table_def zip_map_self)
  with files show ?thesis by blast
qed

lemma create_table_returns:
  assumes "filelist os (format_path os folder) ext = Inr files"
    and "\<forall>f \<in> set files. print_error os f = None \<and> CHR 0x00 \<notin> set f"
  shows "create_table sha os folder ext pre
         = Inr (build_table sha os (if pre then filter (preselected os files) files else files))"
proof -
  let ?input = "if pre then filter (preselected os files) files else files"
  have input: "(if pre then preselect os files else Inr files) = Inr ?input"
    by (simp add: preselect_preselected)
  have "\<forall>f \<in> set ?input. print_error os f = None \<and> CHR 0x00 \<notin> set f"
    using assms(2) by simp
  then have "hashtable sha os (Many ?input) = Inr (map (fingerprint sha os) ?input)"
    by (rule hashtable_returns)
  with assms(1) input show ?thesis
    by (simp add: create_table_def build_table_def zip_map_self)
qed

lemma list_all_duplicates_grouper:
  "create_table sha os folder ext fastscan = Inr t \<Longrightarrow>
   list_all_duplicates sort_values sha os folder ext fastscan = Inr (sort_values (grouper t))"
  by (simp add: list_all_duplicates_def boolean_mask_duplicated grouper_def)

lemma list_all_duplicates_returned:
  assumes "list_all_duplicates sort_values sha os folder ext fastscan = Inr d"
  shows "\<exists>t. create_table sha os folder ext fastscan = Inr t \<and> d = sort_values (grouper t)"
proof -
  obtain t where t: "create_table sha os folder ext fastscan = Inr t"
    using assms
    by (cases "create_table sha os folder ext fastscan") (simp_all add: list_all_duplicates_def)
  with assms list_all_duplicates_grouper [OF t, of sort_values] show ?thesis by simp
qed

lemma sorts_by_hash_set: "sorts_by_hash sort_values \<Longrightarrow> set (sort_values df) = set df"
  unfolding sorts_by_hash_def by (metis set_mset_mset)

lemma sorts_by_hash_stable: "sorts_by_hash stable_sort_values"
  by (simp add: sorts_by_hash_def stable_sort_values_def)

text \<open>
  C3. For every folder, extension filter and setting of the pre-selection for which
  \<open>create_table\<close> returns a table, \<open>list_all_duplicates\<close> returns; a record is in its
  result exactly when it is a record of the table whose fingerprint the table holds in two
  records at least, and as often as in the table. A record whose fingerprint the table holds
  once is absent, and when the table holds the failure sentinel twice or more, every record
  with the sentinel is retained.
\<close>

theorem grouper_membership:
  assumes "sorts_by_hash sort_values"
    and "create_table sha os folder ext fastscan = Inr t"
  shows "\<exists>d. list_all_duplicates sort_values sha os folder ext fastscan = Inr d
         \<and> (\<forall>r. r \<in> set d \<longleftrightarrow> r \<in> set t \<and> 2 \<le> count_list (map snd t) (snd r))
         \<and> (\<forall>r \<in> set t. count_list (map snd t) (snd r) = 1 \<longrightarrow> r \<notin> set d)
         \<and> (2 \<le> count_list (map snd t) no_hash \<longrightarrow>
               (\<forall>r \<in> set t. snd r = no_hash \<longrightarrow> r \<in> set d))
         \<and> mset d = mset (filter (\<lambda>r. 2 \<le> count_list (map snd t) (snd r)) t)"
proof -
  let ?d = "sort_values (grouper t)"
  have d: "list_all_duplicates sort_values sha os folder ext fastscan = Inr ?d"
    using assms(2) by (rule list_all_duplicates_grouper)
  have members: "\<forall>r. r \<in> set ?d \<longleftrightarrow> r \<in> set t \<and> 2 \<le> count_list (map snd t) (snd r)"
    by (simp add: sorts_by_hash_set [OF assms(1)] grouper_def)
  have once: "\<forall>r \<in> set t. count_list (map snd t) (snd r) = 1 \<longrightarrow> r \<notin> set ?d"
    using members by auto
  have failed: "2 \<le> count_list (map snd t) no_hash \<longrightarrow>
               (\<forall>r \<in> set t. snd r = no_hash \<longrightarrow> r \<in> set ?d)"
    using members by auto
  have often: "mset ?d = mset (filter (\<lambda>r. 2 \<le> count_list (map snd t) (snd r)) t)"
    using assms(1) by (simp add: sorts_by_hash_def grouper_def)
  from d members once failed often show ?thesis by blast
qed

section \<open>The example file systems, evaluated\<close>

lemma home_folder: "format_path home_os ''/home/u'' = ''/home/u''"
  by code_simp

lemma home_files:
  "filelist home_os ''/home/u'' None
   = Inr [''/home/u/a.txt'', ''/home/u/b.txt'', ''/home/u/c.txt'', ''/home/u/d.bin'']"
  by code_simp

lemma toy_hex:
  "hexlify (toy_sha [88]) = ''58''"
  "hexlify (toy_sha [89]) = ''59''"
  "hexlify (toy_sha [90]) = ''5a''"
  "hexlify (toy_sha [5]) = ''05''"
  "hexlify (toy_sha [1, 2, 3]) = ''010203''"
  by (simp_all add: hexlify_def toy_sha_def hexdigit_def)

lemma home_opened:
  "open_rb home_os ''/home/u/a.txt'' = Inr ([88], False)"
  "open_rb home_os ''/home/u/b.txt'' = Inr ([88], False)"
  "open_rb home_os ''/home/u/c.txt'' = Inr ([89], False)"
  "open_rb home_os ''/home/u/d.bin'' = Inr ([1, 2, 3], False)"
  by (simp_all add: open_rb_def resolve_def home_os_def isabs_def startswith_def)

lemma home_table:
  "build_table toy_sha home_os
     [''/home/u/a.txt'', ''/home/u/b.txt'', ''/home/u/c.txt'', ''/home/u/d.bin'']
   = [(''/home/u/a.txt'', ''58''), (''/home/u/b.txt'', ''58''), (''/home/u/c.txt'', ''59''),
      (''/home/u/d.bin'', ''010203'')]"
  by (simp add: build_table_def home_opened [THEN fingerprint_opened] toy_hex)

lemma home_create_table:
  "create_table toy_sha home_os ''/home/u'' None False
   = Inr [(''/home/u/a.txt'', ''58''), (''/home/u/b.txt'', ''58''), (''/home/u/c.txt'', ''59''),
          (''/home/u/d.bin'', ''010203'')]"
proof -
  let ?files = "[''/home/u/a.txt'', ''/home/u/b.txt'', ''/home/u/c.txt'', ''/home/u/d.bin'']"
  have "filelist home_os (format_path home_os ''/home/u'') None = Inr ?files"
    by (simp only: home_folder home_files)
  moreover have "\<forall>f \<in> set ?files. print_error home_os f = None \<and> CHR 0x00 \<notin> set f"
    by (simp add: home_os_def)
  ultimately have "create_table toy_sha home_os ''/home/u'' None False
                   = Inr (build_table toy_sha home_os (if False then [] else ?files))"
    using create_table_returns [of home_os "''/home/u''" None ?files toy_sha False] by simp
  then show ?thesis by (simp only: if_False home_table)
qed

lemma locked_folder: "format_path locked_os ''/srv'' = ''/srv''"
  by code_simp

lemma locked_files:
  "filelist locked_os ''/srv'' None = Inr [''/srv/p'', ''/srv/q'', ''/srv/r'', ''/srv/l'']"
  by code_simp

lemma locked_opened:
  "open_rb locked_os ''/srv/p'' = Inl (OSError PermissionError)"
  "open_rb locked_os ''/srv/q'' = Inl (OSError PermissionError)"
  "open_rb locked_os ''/srv/r'' = Inr ([5], False)"
  "open_rb locked_os ''/srv/l'' = Inl (OSError FileNotFoundError)"
  by (simp_all add: open_rb_def resolve_def locked_os_def isabs_def startswith_def)

lemma locked_table:
  "build_table toy_sha locked_os [''/srv/p'', ''/srv/q'', ''/srv/r'', ''/srv/l'']
   = [(''/srv/p'', no_hash), (''/srv/q'', no_hash), (''/srv/r'', ''05''), (''/srv/l'', no_hash)]"
  by (simp add: build_table_def locked_opened(3) [THEN fingerprint_opened]
        locked_opened(1,2,4) [THEN fingerprint_unopened] toy_hex)

lemma locked_create_table:
  "create_table toy_sha locked_os ''/srv'' None False
   = Inr [(''/srv/p'', no_hash), (''/srv/q'', no_hash), (''/srv/r'', ''05''),
          (''/srv/l'', no_hash)]"
proof -
  let ?files = "[''/srv/p'', ''/srv/q'', ''/srv/r'', ''/srv/l'']"
  have "filelist locked_os (format_path locked_os ''/srv'') None = Inr ?files"
    by (simp only: locked_folder locked_files)
  moreover have "\<forall>f \<in> set ?files. print_error locked_os f = None \<and> CHR 0x00 \<notin> set f"
    by (simp add: locked_os_def)
  ultimately have "create_table toy_sha locked_os ''/srv'' None False
                   = Inr (build_table toy_sha locked_os (if False then [] else ?files))"
    using create_table_returns [of locked_os "''/srv''" None ?files toy_sha False] by simp
  then show ?thesis by (simp only: if_False locked_table)
qed

lemma no_hash_neq_05: "no_hash \<noteq> ''05''"
  by (simp add: no_hash_def)

theorem grouper_membership_witness:
  "sorts_by_hash stable_sort_values
   \<and> create_table toy_sha locked_os ''/srv'' None False
       = Inr [(''/srv/p'', no_hash), (''/srv/q'', no_hash), (''/srv/r'', ''05''),
              (''/srv/l'', no_hash)]
   \<and> (\<exists>d. list_all_duplicates stable_sort_values toy_sha locked_os ''/srv'' None False = Inr d
          \<and> mset d = mset [(''/srv/p'', no_hash), (''/srv/q'', no_hash), (''/srv/l'', no_hash)])"
proof -
  let ?t = "[(''/srv/p'', no_hash), (''/srv/q'', no_hash), (''/srv/r'', ''05''),
             (''/srv/l'', no_hash)]"
  obtain d
    where d: "list_all_duplicates stable_sort_values toy_sha locked_os ''/srv'' None False = Inr d"
      and often: "mset d = mset (filter (\<lambda>r. 2 \<le> count_list (map snd ?t) (snd r)) ?t)"
    using grouper_membership [OF sorts_by_hash_stable locked_create_table] by blast
  from often
  have "mset d = mset [(''/srv/p'', no_hash), (''/srv/q'', no_hash), (''/srv/l'', no_hash)]"
    using no_hash_neq_05 by simp
  with d sorts_by_hash_stable locked_create_table show ?thesis by blast
qed

section \<open>The paths that a walk lists\<close>

lemma startswith_iff: "startswith s p \<longleftrightarrow> (\<exists>t. s = p @ t)"
proof
  assume "startswith s p"
  then have "s = p @ drop (length p) s"
    unfolding startswith_def by (metis append_take_drop_id)
  then show "\<exists>t. s = p @ t" ..
next
  assume "\<exists>t. s = p @ t"
  then show "startswith s p" by (auto simp: startswith_def)
qed

lemma plain_not_abs: "plain c \<Longrightarrow> \<not> startswith c ''/''"
  by (cases c) (auto simp: plain_def startswith_def)

lemma endswith_slash: "endswith s ''/'' \<longleftrightarrow> s \<noteq> [] \<and> last s = CHR ''/''"
proof (cases s rule: rev_cases)
  case Nil
  then show ?thesis by (simp add: endswith_def)
next
  case (snoc xs x)
  then show ?thesis by (simp add: endswith_def)
qed

lemma endswith_append_plain:
  assumes "plain c"
  shows "\<not> endswith (a @ c) ''/''"
proof -
  have "c \<noteq> []" and "CHR ''/'' \<notin> set c" using assms by (simp_all add: plain_def)
  then have "last c \<noteq> CHR ''/''" by (metis last_in_set)
  with \<open>c \<noteq> []\<close> show ?thesis by (simp add: endswith_slash)
qed

lemma under_path_join:
  assumes "plain c" and "a \<noteq> []"
  shows "under a (path_join a c)" and "under (path_join a c) f \<Longrightarrow> under a f"
proof -
  have join: "path_join a c = (if endswith a ''/'' then a @ c else a @ ''/'' @ c)"
    using assms by (simp add: path_join_def plain_not_abs)
  show "under a (path_join a c)"
    by (auto simp: under_def dir_prefix_def join startswith_iff)
  assume "under (path_join a c) f"
  moreover have "\<not> endswith (path_join a c) ''/''"
    using endswith_append_plain [OF assms(1), of a] endswith_append_plain [OF assms(1), of "a @ ''/''"]
    by (simp add: join)
  ultimately show "under a f"
    by (auto simp: under_def dir_prefix_def join startswith_iff)
qed

lemma under_path_join_trans:
  assumes "plain c" and "under a p"
  shows "under a (path_join p c)"
proof -
  have "\<not> startswith c ''/''" using assms(1) by (rule plain_not_abs)
  then have "path_join p c = p @ c \<or> path_join p c = p @ ''/'' @ c"
    by (simp add: path_join_def)
  then have "startswith (path_join p c) p"
    unfolding startswith_iff by blast
  with assms(2) show ?thesis
    by (auto simp: under_def startswith_iff)
qed

lemma walk_under:
  "wellnamed n \<Longrightarrow> topdir \<noteq> [] \<Longrightarrow> (path, dirs, files) \<in> set (walk topdir n) \<Longrightarrow>
   (path = topdir \<or> under topdir path) \<and> path \<noteq> [] \<and> (\<forall>name \<in> set files. plain name)"
proof (induction topdir n arbitrary: path dirs files rule: walk.induct)
  case (1 topdir sz es)
  from "1.prems"(3) consider "path = topdir" "files = map fst (filter (\<lambda>e. \<not> is_dir (snd e)) es)"
    | e where "e \<in> set es" "(path, dirs, files) \<in> set (walk (path_join topdir (fst e)) (snd e))"
    by auto
  then show ?case
  proof cases
    case 1
    then show ?thesis using "1.prems"(1,2) by auto
  next
    case 2
    have named: "plain (fst e)" "wellnamed (snd e)" using "1.prems"(1) 2(1) by auto
    have "path_join topdir (fst e) \<noteq> []"
      using "1.prems"(2) named(1) by (simp add: path_join_def plain_not_abs)
    from "1.IH" [OF 2(1) named(2) this 2(2)]
    show ?thesis
      using under_path_join [OF named(1) "1.prems"(2)] by auto
  qed
qed simp_all

lemma descend_wellnamed:
  "wellnamed cur \<Longrightarrow> \<forall>u \<in> set up. wellnamed u \<Longrightarrow> descend cur up cs = Inr n \<Longrightarrow> wellnamed n"
proof (induction cur up cs rule: descend.induct)
  case (1 cur up)
  then show ?case by simp
next
  case (2 cur up c cs)
  show ?case
  proof (cases cur)
    case (Directory sz es)
    show ?thesis
    proof (cases "c = [] \<or> c = ''.''")
      case True
      with 2 Directory show ?thesis by auto
    next
      case False
      note plainish = this
      show ?thesis
      proof (cases "c = ''..''")
        case True
        with 2 Directory plainish show ?thesis by (cases up) auto
      next
        case False
        with 2 Directory plainish show ?thesis
          by (auto split: option.splits dest!: map_of_SomeD)
      qed
    qed
  qed (use 2 in simp_all)
qed

lemma resolve_wellnamed: "wellnamed (root os) \<Longrightarrow> resolve os path = Inr n \<Longrightarrow> wellnamed n"
  using descend_wellnamed [of "root os" "[]"]
  by (auto simp: resolve_def split: if_splits sum.splits)

lemma foldl_append_map:
  "foldl (\<lambda>acc x. if P x then acc @ [g x] else acc) acc xs = acc @ map g (filter P xs)"
  by (induction xs arbitrary: acc) simp_all

lemma filelist_inner:
  "foldl (\<lambda>file_list name.
            let extension = snd (splitext name)
            in if ext = None \<or> Some extension = ext
               then file_list @ [path_join path name]
               else file_list) acc files
   = acc @ map (path_join path)
       (filter (\<lambda>name. ext = None \<or> Some (snd (splitext name)) = ext) files)"
  unfolding Let_def by (rule foldl_append_map)

lemma foldl_append_concat:
  "foldl (\<lambda>acc (path, dirs, files). acc @ g path files) acc triples
   = acc @ concat (map (\<lambda>(path, dirs, files). g path files) triples)"
  by (induction triples arbitrary: acc) auto

lemma filelist_outer:
  "foldl (\<lambda>file_list (path, dirs, files).
            foldl (\<lambda>file_list name.
                     let extension = snd (splitext name)
                     in if ext = None \<or> Some extension = ext
                        then file_list @ [path_join path name]
                        else file_list)
                  file_list files)
         acc triples
   = acc @ concat (map (\<lambda>(path, dirs, files). map (path_join path)
              (filter (\<lambda>name. ext = None \<or> Some (snd (splitext name)) = ext) files)) triples)"
  unfolding filelist_inner by (rule foldl_append_concat)

lemma filelist_walked:
  "filelist os topdir ext = Inr fs \<Longrightarrow>
   \<exists>triples. os_walk os topdir = Inr triples
     \<and> fs = concat (map (\<lambda>(path, dirs, files). map (path_join path)
              (filter (\<lambda>name. ext = None \<or> Some (snd (splitext name)) = ext) files)) triples)"
  unfolding filelist_def filelist_outer by (cases "os_walk os topdir") simp_all

lemma filelist_files:
  assumes "filelist os topdir ext = Inr fs" and "f \<in> set fs"
  shows "\<exists>triples path dirs files name. os_walk os topdir = Inr triples
           \<and> (path, dirs, files) \<in> set triples \<and> name \<in> set files \<and> f = path_join path name"
proof -
  obtain triples where triples: "os_walk os topdir = Inr triples"
    and fs: "fs = concat (map (\<lambda>(path, dirs, files). map (path_join path)
              (filter (\<lambda>name. ext = None \<or> Some (snd (splitext name)) = ext) files)) triples)"
    using filelist_walked [OF assms(1)] by blast
  from assms(2) obtain t where t: "t \<in> set triples"
    and f: "f \<in> set ((\<lambda>(path, dirs, files). map (path_join path)
              (filter (\<lambda>name. ext = None \<or> Some (snd (splitext name)) = ext) files)) t)"
    unfolding fs by auto
  obtain path dirs files where "t = (path, dirs, files)" by (cases t)
  with t f triples show ?thesis by auto
qed

lemma filelist_under:
  assumes "wellnamed (root os)" and "filelist os topdir ext = Inr fs" and "f \<in> set fs"
  shows "under topdir f"
proof -
  obtain triples path dirs files name where triples: "os_walk os topdir = Inr triples"
    and t: "(path, dirs, files) \<in> set triples" and name: "name \<in> set files"
    and f: "f = path_join path name"
    using filelist_files [OF assms(2,3)] by blast
  from triples t obtain n where n: "resolve os topdir = Inr n" and w: "triples = walk topdir n"
    by (auto simp: os_walk_def split: sum.splits py_error.splits)
  from n have nonempty: "topdir \<noteq> []" by (auto simp: resolve_def split: if_splits)
  have "wellnamed n" using assms(1) n by (rule resolve_wellnamed)
  from walk_under [OF this nonempty t [unfolded w]] name
  have path: "path = topdir \<or> under topdir path" and "path \<noteq> []" and "plain name" by auto
  from path show ?thesis
  proof
    assume "path = topdir"
    then show ?thesis
      unfolding f using under_path_join(1) [OF \<open>plain name\<close> nonempty] by simp
  next
    assume "under topdir path"
    with \<open>plain name\<close> show ?thesis
      unfolding f by (rule under_path_join_trans)
  qed
qed

lemma under_apart:
  assumes "under a f" and "under b f"
  shows "\<not> apart a b"
proof -
  obtain s t where "f = dir_prefix a @ s" and "f = dir_prefix b @ t"
    using assms unfolding under_def startswith_iff by blast
  then have "dir_prefix a @ s = dir_prefix b @ t" by simp
  then obtain us where "dir_prefix a = dir_prefix b @ us \<or> dir_prefix a @ us = dir_prefix b"
    unfolding append_eq_append_conv2 by blast
  then have "startswith (dir_prefix a) (dir_prefix b) \<or> startswith (dir_prefix b) (dir_prefix a)"
    unfolding startswith_iff by (elim disjE) (blast, metis)
  then show ?thesis by (simp add: apart_def)
qed

section \<open>Comparing two folders\<close>

lemma nonzero_rows_map:
  "iloc_take rows (nonzero_rows (map f rows))
   = concat (map (\<lambda>r. replicate (length (filter (\<lambda>b. b) (f r))) r) rows)"
proof -
  have "nonzero_rows (map f rows)
        = concat (map (\<lambda>i. replicate (length (filter (\<lambda>b. b) (f (rows ! i)))) i)
            [0..<length rows])"
    unfolding nonzero_rows_def by (intro arg_cong [where f = concat] map_cong) simp_all
  then have "iloc_take rows (nonzero_rows (map f rows))
        = concat (map (\<lambda>i. replicate (length (filter (\<lambda>b. b) (f (rows ! i)))) (rows ! i))
            [0..<length rows])"
    by (simp add: iloc_take_def map_concat comp_def)
  also have "\<dots> = concat (map (\<lambda>r. replicate (length (filter (\<lambda>b. b) (f r))) r)
                       (map (\<lambda>i. rows ! i) [0..<length rows]))"
    by (simp add: comp_def)
  finally show ?thesis by (simp only: map_nth)
qed

lemma length_filter_eq_snd:
  "length (filter (\<lambda>r. x = snd r) df) = count_list (map snd df) x"
  by (induction df) auto

lemma drop_duplicates_seen_replicate:
  "drop_duplicates_seen seen (replicate n r @ rest)
   = (if n = 0 \<or> fst r \<in> set seen then drop_duplicates_seen seen rest
      else r # drop_duplicates_seen (fst r # seen) rest)"
proof (cases n)
  case 0
  then show ?thesis by simp
next
  case (Suc m)
  have again: "drop_duplicates_seen seen' (replicate k r @ rest) = drop_duplicates_seen seen' rest"
    if "fst r \<in> set seen'" for seen' k
    using that by (induction k) simp_all
  show ?thesis using Suc by (simp add: again)
qed

lemma drop_duplicates_seen_repeated:
  "drop_duplicates_seen seen (concat (map (\<lambda>r. replicate (k r) r) rows))
   = drop_duplicates_seen seen (filter (\<lambda>r. 0 < k r) rows)"
  by (induction rows arbitrary: seen) (simp_all add: drop_duplicates_seen_replicate)

lemma drop_duplicates_seen_files:
  "fst ` set (drop_duplicates_seen seen rows) = fst ` set rows - set seen"
  by (induction rows arbitrary: seen) auto

lemma drop_duplicates_seen_subset: "set (drop_duplicates_seen seen rows) \<subseteq> set rows"
  by (induction rows arbitrary: seen) auto

lemma drop_duplicates_seen_distinct: "distinct (map fst (drop_duplicates_seen seen rows))"
  by (induction rows arbitrary: seen) (auto simp: drop_duplicates_seen_files)

lemma drop_duplicates_seen_id:
  "distinct (map fst rows) \<Longrightarrow> set seen \<inter> fst ` set rows = {} \<Longrightarrow>
   drop_duplicates_seen seen rows = rows"
  by (induction rows arbitrary: seen) auto

lemma count_list_distinct_member: "distinct xs \<Longrightarrow> x \<in> set xs \<Longrightarrow> count_list xs x = 1"
  by (induction xs) auto

lemma compare_folders_filter:
  assumes "create_table sha os reference_folder ext False = Inr df_reference"
    and "create_table sha os compare_folder ext False = Inr df_compare"
  shows "compare_folders sha os reference_folder compare_folder ext
         = Inr (drop_duplicates_file (filter (\<lambda>r. snd r \<in> snd ` set df_reference) df_compare))"
proof -
  let ?col = "map snd df_reference"
  have "iloc_take df_compare
          (nonzero_rows (map (\<lambda>x. map (\<lambda>h. x = h) ?col) (map snd df_compare)))
        = concat (map (\<lambda>r. replicate (count_list ?col (snd r)) r) df_compare)"
    using nonzero_rows_map [of df_compare "\<lambda>r. map (\<lambda>h. snd r = h) ?col"]
    by (simp add: length_filter_eq_snd comp_def)
  moreover have "(0 < count_list ?col h) = (h \<in> snd ` set df_reference)" for h
    using count_list_0_iff [of ?col h] by auto
  ultimately show ?thesis
    using assms
    by (simp add: compare_folders_def drop_duplicates_file_def drop_duplicates_seen_repeated Let_def)
qed

lemma create_table_under:
  assumes "create_table sha os folder ext pre = Inr t" and "wellnamed (root os)"
    and "r \<in> set t"
  shows "under (format_path os folder) (fst r)"
proof -
  obtain files where files: "filelist os (format_path os folder) ext = Inr files"
    and t: "t = build_table sha os (if pre then filter (preselected os files) files else files)"
    using create_table_returned [OF assms(1)] by blast
  from assms(3) have "fst r \<in> set files"
    unfolding t build_table_def by (auto split: if_splits)
  with assms(2) files show ?thesis by (rule filelist_under)
qed

text \<open>
  C5, as amended. For any two folders of which \<open>create_table\<close> returns the tables,
  \<open>compare_folders\<close> returns exactly the records of the table of the folder to compare whose
  fingerprint occurs in the table of the reference folder, the first record of each path only.
  So every record of the result is a record of the table of the folder to compare, no path
  occurs twice in the result, and a file of the folder to compare that matches reference files,
  however many, occurs exactly once. When no path occurs twice in the table of the folder to
  compare, nothing is dropped. Every path of the result lies under the folder to compare, and
  when the two folders are apart (neither is the other nor lies under it), no path of the result
  is a path of the reference table.
\<close>

theorem compare_folders_matches:
  assumes "create_table sha os reference_folder ext False = Inr df_reference"
    and "create_table sha os compare_folder ext False = Inr df_compare"
  shows "\<exists>d. compare_folders sha os reference_folder compare_folder ext = Inr d
    \<and> d = drop_duplicates_file (filter (\<lambda>r. snd r \<in> snd ` set df_reference) df_compare)
    \<and> set d \<subseteq> set df_compare
    \<and> distinct (map fst d)
    \<and> (\<forall>r \<in> set df_compare. snd r \<in> snd ` set df_reference
           \<longrightarrow> count_list (map fst d) (fst r) = 1)
    \<and> (\<forall>r \<in> set d. snd r \<in> snd ` set df_reference)
    \<and> (distinct (map fst df_compare)
           \<longrightarrow> d = filter (\<lambda>r. snd r \<in> snd ` set df_reference) df_compare)
    \<and> (wellnamed (root os)
           \<longrightarrow> (\<forall>r \<in> set d. under (format_path os compare_folder) (fst r)))
    \<and> (wellnamed (root os)
         \<and> apart (format_path os reference_folder) (format_path os compare_folder)
           \<longrightarrow> (\<forall>r \<in> set d. fst r \<notin> fst ` set df_reference))"
proof -
  note ref = assms(1) and cmp = assms(2)
  let ?matching = "filter (\<lambda>r. snd r \<in> snd ` set df_reference) df_compare"
  let ?d = "drop_duplicates_file ?matching"
  have res: "compare_folders sha os reference_folder compare_folder ext = Inr ?d"
    using ref cmp by (rule compare_folders_filter)
  have sub: "set ?d \<subseteq> set ?matching"
    unfolding drop_duplicates_file_def by (rule drop_duplicates_seen_subset)
  then have from_compare: "set ?d \<subseteq> set df_compare" by auto
  have dist: "distinct (map fst ?d)"
    unfolding drop_duplicates_file_def by (rule drop_duplicates_seen_distinct)
  have files: "fst ` set ?d = fst ` set ?matching"
    unfolding drop_duplicates_file_def by (simp add: drop_duplicates_seen_files)
  have once: "\<forall>r \<in> set df_compare. snd r \<in> snd ` set df_reference
           \<longrightarrow> count_list (map fst ?d) (fst r) = 1"
  proof (intro ballI impI)
    fix r
    assume "r \<in> set df_compare" and "snd r \<in> snd ` set df_reference"
    then have "r \<in> set ?matching" by simp
    then have "fst r \<in> fst ` set ?d" unfolding files by (rule imageI)
    then have "fst r \<in> set (map fst ?d)" by simp
    with dist show "count_list (map fst ?d) (fst r) = 1"
      by (rule count_list_distinct_member)
  qed
  have matched: "\<forall>r \<in> set ?d. snd r \<in> snd ` set df_reference"
    using sub by auto
  have all: "distinct (map fst df_compare) \<longrightarrow> ?d = ?matching"
  proof
    assume "distinct (map fst df_compare)"
    then have "distinct (map fst ?matching)" by (rule distinct_map_filter)
    then show "?d = ?matching"
      unfolding drop_duplicates_file_def by (rule drop_duplicates_seen_id) simp
  qed
  have below: "wellnamed (root os)
           \<longrightarrow> (\<forall>r \<in> set ?d. under (format_path os compare_folder) (fst r))"
  proof (intro impI ballI)
    fix r
    assume named: "wellnamed (root os)" and "r \<in> set ?d"
    then have "r \<in> set df_compare" using from_compare by blast
    with cmp named show "under (format_path os compare_folder) (fst r)"
      by (rule create_table_under)
  qed
  have disjoint: "wellnamed (root os)
         \<and> apart (format_path os reference_folder) (format_path os compare_folder)
           \<longrightarrow> (\<forall>r \<in> set ?d. fst r \<notin> fst ` set df_reference)"
  proof (intro impI ballI notI)
    fix r
    assume both: "wellnamed (root os)
         \<and> apart (format_path os reference_folder) (format_path os compare_folder)"
      and r: "r \<in> set ?d" and shared: "fst r \<in> fst ` set df_reference"
    from both have named: "wellnamed (root os)" ..
    from r have "r \<in> set df_compare" using from_compare by blast
    with cmp named have one: "under (format_path os compare_folder) (fst r)"
      by (rule create_table_under)
    from shared obtain q where q: "q \<in> set df_reference" and same: "fst q = fst r" by auto
    from ref named q have "under (format_path os reference_folder) (fst q)"
      by (rule create_table_under)
    then have "under (format_path os reference_folder) (fst r)" by (simp only: same)
    then have "\<not> apart (format_path os reference_folder) (format_path os compare_folder)"
      using one by (rule under_apart)
    with both show False by simp
  qed
  have "compare_folders sha os reference_folder compare_folder ext = Inr ?d
    \<and> ?d = drop_duplicates_file (filter (\<lambda>r. snd r \<in> snd ` set df_reference) df_compare)
    \<and> set ?d \<subseteq> set df_compare
    \<and> distinct (map fst ?d)
    \<and> (\<forall>r \<in> set df_compare. snd r \<in> snd ` set df_reference
           \<longrightarrow> count_list (map fst ?d) (fst r) = 1)
    \<and> (\<forall>r \<in> set ?d. snd r \<in> snd ` set df_reference)
    \<and> (distinct (map fst df_compare)
           \<longrightarrow> ?d = filter (\<lambda>r. snd r \<in> snd ` set df_reference) df_compare)
    \<and> (wellnamed (root os)
           \<longrightarrow> (\<forall>r \<in> set ?d. under (format_path os compare_folder) (fst r)))
    \<and> (wellnamed (root os)
         \<and> apart (format_path os reference_folder) (format_path os compare_folder)
           \<longrightarrow> (\<forall>r \<in> set ?d. fst r \<notin> fst ` set df_reference))"
    using res from_compare dist once matched all below disjoint by (intro conjI refl)
  then show ?thesis by (intro exI)
qed

lemma pair_opened:
  "open_rb pair_os ''/ref/x.txt'' = Inr ([88], False)"
  "open_rb pair_os ''/ref/x2.txt'' = Inr ([88], False)"
  "open_rb pair_os ''/cmp/y.txt'' = Inr ([88], False)"
  "open_rb pair_os ''/cmp/z.txt'' = Inr ([90], False)"
  by (simp_all add: open_rb_def resolve_def pair_os_def isabs_def startswith_def)

lemma pair_reference_folder: "format_path pair_os ''/ref'' = ''/ref''"
  by code_simp

lemma pair_reference_files:
  "filelist pair_os ''/ref'' None = Inr [''/ref/x.txt'', ''/ref/x2.txt'']"
  by code_simp

lemma pair_reference_table:
  "create_table toy_sha pair_os ''/ref'' None False
   = Inr [(''/ref/x.txt'', ''58''), (''/ref/x2.txt'', ''58'')]"
proof -
  let ?files = "[''/ref/x.txt'', ''/ref/x2.txt'']"
  have "filelist pair_os (format_path pair_os ''/ref'') None = Inr ?files"
    by (simp only: pair_reference_folder pair_reference_files)
  moreover have "\<forall>f \<in> set ?files. print_error pair_os f = None \<and> CHR 0x00 \<notin> set f"
    by (simp add: pair_os_def)
  ultimately have "create_table toy_sha pair_os ''/ref'' None False
                   = Inr (build_table toy_sha pair_os (if False then [] else ?files))"
    using create_table_returns [of pair_os "''/ref''" None ?files toy_sha False] by simp
  then show ?thesis
    by (simp add: build_table_def pair_opened [THEN fingerprint_opened] toy_hex)
qed

lemma pair_compare_folder: "format_path pair_os ''/cmp'' = ''/cmp''"
  by code_simp

lemma pair_compare_files:
  "filelist pair_os ''/cmp'' None = Inr [''/cmp/y.txt'', ''/cmp/z.txt'']"
  by code_simp

lemma pair_compare_table:
  "create_table toy_sha pair_os ''/cmp'' None False
   = Inr [(''/cmp/y.txt'', ''58''), (''/cmp/z.txt'', ''5a'')]"
proof -
  let ?files = "[''/cmp/y.txt'', ''/cmp/z.txt'']"
  have "filelist pair_os (format_path pair_os ''/cmp'') None = Inr ?files"
    by (simp only: pair_compare_folder pair_compare_files)
  moreover have "\<forall>f \<in> set ?files. print_error pair_os f = None \<and> CHR 0x00 \<notin> set f"
    by (simp add: pair_os_def)
  ultimately have "create_table toy_sha pair_os ''/cmp'' None False
                   = Inr (build_table toy_sha pair_os (if False then [] else ?files))"
    using create_table_returns [of pair_os "''/cmp''" None ?files toy_sha False] by simp
  then show ?thesis
    by (simp add: build_table_def pair_opened [THEN fingerprint_opened] toy_hex)
qed

lemma pair_wellnamed: "wellnamed (root pair_os)"
  by (simp add: pair_os_def plain_def)

lemma pair_apart: "apart ''/ref'' ''/cmp''"
  by (simp add: apart_def dir_prefix_def endswith_def startswith_def)

theorem compare_folders_matches_witness:
  "create_table toy_sha pair_os ''/ref'' None False
     = Inr [(''/ref/x.txt'', ''58''), (''/ref/x2.txt'', ''58'')]
   \<and> create_table toy_sha pair_os ''/cmp'' None False
     = Inr [(''/cmp/y.txt'', ''58''), (''/cmp/z.txt'', ''5a'')]
   \<and> wellnamed (root pair_os)
   \<and> apart (format_path pair_os ''/ref'') (format_path pair_os ''/cmp'')
   \<and> compare_folders toy_sha pair_os ''/ref'' ''/cmp'' None = Inr [(''/cmp/y.txt'', ''58'')]"
proof -
  let ?ref = "[(''/ref/x.txt'', ''58''), (''/ref/x2.txt'', ''58'')]"
  let ?cmp = "[(''/cmp/y.txt'', ''58''), (''/cmp/z.txt'', ''5a'')]"
  obtain d
    where res: "compare_folders toy_sha pair_os ''/ref'' ''/cmp'' None = Inr d"
      and d: "d = drop_duplicates_file (filter (\<lambda>r. snd r \<in> snd ` set ?ref) ?cmp)"
    using compare_folders_matches [OF pair_reference_table pair_compare_table] by blast
  have "d = [(''/cmp/y.txt'', ''58'')]"
    unfolding d by (simp add: drop_duplicates_file_def)
  moreover have "apart (format_path pair_os ''/ref'') (format_path pair_os ''/cmp'')"
    by (simp only: pair_reference_folder pair_compare_folder pair_apart)
  ultimately show ?thesis
    using res pair_reference_table pair_compare_table pair_wellnamed by (intro conjI) simp_all
qed

text \<open>
  C5 as stated, for any two folders, fails in its last part: when the folder to compare is the
  reference folder (or lies under it, or holds it), the records of the result are records of
  the reference table.
\<close>

theorem compare_folders_same_folder:
  "create_table toy_sha pair_os ''/ref'' None False
     = Inr [(''/ref/x.txt'', ''58''), (''/ref/x2.txt'', ''58'')]
   \<and> compare_folders toy_sha pair_os ''/ref'' ''/ref'' None
     = Inr [(''/ref/x.txt'', ''58''), (''/ref/x2.txt'', ''58'')]"
proof -
  have "compare_folders toy_sha pair_os ''/ref'' ''/ref'' None
        = Inr [(''/ref/x.txt'', ''58''), (''/ref/x2.txt'', ''58'')]"
    using compare_folders_filter [OF pair_reference_table pair_reference_table]
    by (simp add: drop_duplicates_file_def)
  with pair_reference_table show ?thesis by (intro conjI)
qed

section \<open>Looking up one file\<close>

lemma boolean_mask_eq:
  "boolean_mask df (map ((\<lambda>h. h = x) \<circ> snd) df) = filter (\<lambda>r. snd r = x) df"
  unfolding boolean_mask_map by (simp add: comp_def)

lemma find_duplicates_filter:
  assumes "hashtable sha os (Single (format_path os file)) = Inr file_hash"
    and "list_all_duplicates sort_values sha os (format_path os folder) None False = Inr d"
  shows "find_duplicates sort_values sha os file folder
         = Inr (filter (\<lambda>r. snd r = fingerprint sha os (format_path os file)) d)"
proof -
  have "file_hash = [fingerprint sha os (format_path os file)]"
    using assms(1) by (rule hashtable_single_returned)
  with assms show ?thesis
    by (simp add: find_duplicates_def boolean_mask_eq Let_def)
qed

lemma grouper_filter_once:
  assumes "count_list (map snd t) x \<le> 1"
  shows "filter (\<lambda>r. snd r = x) (grouper t) = []"
  using assms by (auto simp: grouper_def filter_empty_conv)

lemma filter_sorted_grouper_once:
  assumes "sorts_by_hash sort_values" and "count_list (map snd t) x \<le> 1"
  shows "filter (\<lambda>r. snd r = x) (sort_values (grouper t)) = []"
proof -
  have "set (filter (\<lambda>r. snd r = x) (sort_values (grouper t)))
        = set (filter (\<lambda>r. snd r = x) (grouper t))"
    by (simp add: sorts_by_hash_set [OF assms(1)])
  then show ?thesis
    by (simp only: grouper_filter_once [OF assms(2)] set_empty list.set)
qed

lemma fingerprint_digest:
  assumes "fingerprint sha os f = hexlify x"
  shows "\<exists>c. open_rb os f = Inr (c, False) \<and> sha c = x"
proof (cases "open_rb os f")
  case (Inl e)
  then have "fingerprint sha os f = no_hash" by (rule fingerprint_unopened)
  with assms show ?thesis using no_hash_not_hex [of x] by simp
next
  case (Inr message)
  obtain c bad where message: "message = (c, bad)" by (cases message)
  show ?thesis
  proof (cases bad)
    case True
    with Inr message have "fingerprint sha os f = no_hash"
      by (simp add: fingerprint_unread)
    with assms show ?thesis using no_hash_not_hex [of x] by simp
  next
    case False
    with Inr message have opened: "open_rb os f = Inr (c, False)" by simp
    then have "fingerprint sha os f = hexlify (sha c)" by (rule fingerprint_opened)
    with assms have "hexlify (sha c) = hexlify x" by simp
    then have "sha c = x" by (rule hexlify_inj)
    with opened show ?thesis by blast
  qed
qed

lemma count_list_build_table:
  assumes "\<forall>f \<in> set files. fingerprint sha os f = x \<longrightarrow> f = target"
  shows "count_list (map snd (build_table sha os files)) x \<le> count_list files target"
  using assms
proof (induction files)
  case Nil
  then show ?case by (simp add: build_table_def)
next
  case (Cons f files)
  have rest: "count_list (map snd (build_table sha os files)) x \<le> count_list files target"
    using Cons by simp
  show ?case
  proof (cases "fingerprint sha os f = x")
    case True
    with Cons.prems have "f = target" by simp
    with True rest show ?thesis by (simp add: build_table_def)
  next
    case False
    with rest show ?thesis by (simp add: build_table_def)
  qed
qed

text \<open>
  C8, as amended. When \<open>hashtable\<close> returns for the target alone and \<open>create_table\<close> returns
  the table of the folder, without pre-selection and without an extension filter, then what
  \<open>hashtable\<close> returned is the one fingerprint of the target: its digest, or the failure sentinel
  when an \<open>OSError\<close> keeps the target from being read. \<open>list_all_duplicates\<close> and
  \<open>find_duplicates\<close> return, and the result of \<open>find_duplicates\<close> is exactly the rows of the
  result of \<open>list_all_duplicates\<close> whose fingerprint is the target's. When at most one row of
  the folder's table has the target's fingerprint, the result is empty; this is so in particular
  when the target can be read to its end, the folder lists it at most once, and no other file
  of the folder can be read to its end with a content of the same digest.
\<close>

theorem find_duplicates_lookup:
  assumes "sorts_by_hash sort_values"
    and "hashtable sha os (Single (format_path os file)) = Inr file_hash"
    and "create_table sha os (format_path os folder) None False = Inr t"
  shows "file_hash = [fingerprint sha os (format_path os file)]
    \<and> (\<forall>c. open_rb os (format_path os file) = Inr (c, False)
            \<longrightarrow> fingerprint sha os (format_path os file) = hexlify (sha c))
    \<and> (\<forall>c. open_rb os (format_path os file) = Inr (c, True)
            \<longrightarrow> fingerprint sha os (format_path os file) = no_hash)
    \<and> (\<forall>e. open_rb os (format_path os file) = Inl (OSError e)
            \<longrightarrow> fingerprint sha os (format_path os file) = no_hash)
    \<and> (\<exists>d res.
          list_all_duplicates sort_values sha os (format_path os folder) None False = Inr d
        \<and> find_duplicates sort_values sha os file folder = Inr res
        \<and> res = filter (\<lambda>r. snd r = fingerprint sha os (format_path os file)) d
        \<and> (\<forall>r. r \<in> set res \<longleftrightarrow>
              r \<in> set t \<and> 2 \<le> count_list (map snd t) (snd r)
              \<and> snd r = fingerprint sha os (format_path os file))
        \<and> (count_list (map snd t) (fingerprint sha os (format_path os file)) \<le> 1
              \<longrightarrow> res = [])
        \<and> (\<forall>c. open_rb os (format_path os file) = Inr (c, False)
                \<and> count_list (map fst t) (format_path os file) \<le> 1
                \<and> (\<forall>f \<in> fst ` set t. \<forall>c'. open_rb os f = Inr (c', False) \<and> sha c' = sha c
                       \<longrightarrow> f = format_path os file)
              \<longrightarrow> res = []))"
proof -
  let ?target = "format_path os file"
  let ?fp = "fingerprint sha os ?target"
  let ?d = "sort_values (grouper t)"
  let ?res = "filter (\<lambda>r. snd r = ?fp) ?d"
  obtain files where files: "filelist os (format_path os (format_path os folder)) None = Inr files"
    and t: "t = build_table sha os (if False then filter (preselected os files) files else files)"
    using create_table_returned [OF assms(3)] by blast
  from t have table: "t = build_table sha os files" by simp
  have one: "file_hash = [?fp]"
    using assms(2) by (rule hashtable_single_returned)
  have digest: "\<forall>c. open_rb os ?target = Inr (c, False) \<longrightarrow> ?fp = hexlify (sha c)"
    by (simp add: fingerprint_opened)
  have unread: "\<forall>c. open_rb os ?target = Inr (c, True) \<longrightarrow> ?fp = no_hash"
    by (simp add: fingerprint_unread)
  have unopened: "\<forall>e. open_rb os ?target = Inl (OSError e) \<longrightarrow> ?fp = no_hash"
    by (simp add: fingerprint_unopened)
  have d: "list_all_duplicates sort_values sha os (format_path os folder) None False = Inr ?d"
    using assms(3) by (rule list_all_duplicates_grouper)
  have res: "find_duplicates sort_values sha os file folder = Inr ?res"
    using assms(2) d by (rule find_duplicates_filter)
  have members: "\<forall>r. r \<in> set ?res \<longleftrightarrow>
              r \<in> set t \<and> 2 \<le> count_list (map snd t) (snd r) \<and> snd r = ?fp"
    by (simp add: sorts_by_hash_set [OF assms(1)] grouper_def)
  have once: "count_list (map snd t) ?fp \<le> 1 \<longrightarrow> ?res = []"
    using filter_sorted_grouper_once [OF assms(1)] by blast
  have listed: "map fst t = files"
    by (simp add: table build_table_def comp_def)
  have alone: "\<forall>c. open_rb os ?target = Inr (c, False)
            \<and> count_list (map fst t) ?target \<le> 1
            \<and> (\<forall>f \<in> fst ` set t. \<forall>c'. open_rb os f = Inr (c', False) \<and> sha c' = sha c
                   \<longrightarrow> f = ?target)
          \<longrightarrow> ?res = []"
  proof (intro allI impI)
    fix c
    assume asm: "open_rb os ?target = Inr (c, False)
            \<and> count_list (map fst t) ?target \<le> 1
            \<and> (\<forall>f \<in> fst ` set t. \<forall>c'. open_rb os f = Inr (c', False) \<and> sha c' = sha c
                   \<longrightarrow> f = ?target)"
    then have fp: "?fp = hexlify (sha c)" by (simp add: fingerprint_opened)
    have few: "count_list files ?target \<le> 1"
      using asm listed by simp
    have "fst ` set t = set files"
      using listed by (metis set_map)
    with asm have others:
      "\<forall>f \<in> set files. \<forall>c'. open_rb os f = Inr (c', False) \<and> sha c' = sha c \<longrightarrow> f = ?target"
      by simp
    have "\<forall>f \<in> set files. fingerprint sha os f = ?fp \<longrightarrow> f = ?target"
    proof (intro ballI impI)
      fix f
      assume f: "f \<in> set files" and "fingerprint sha os f = ?fp"
      then have "fingerprint sha os f = hexlify (sha c)" by (simp only: fp)
      then obtain c' where "open_rb os f = Inr (c', False)" and "sha c' = sha c"
        using fingerprint_digest by blast
      with others f show "f = ?target" by blast
    qed
    then have "count_list (map snd (build_table sha os files)) ?fp \<le> count_list files ?target"
      by (rule count_list_build_table)
    with few have "count_list (map snd t) ?fp \<le> 1" by (simp add: table)
    with once show "?res = []" by blast
  qed
  have "list_all_duplicates sort_values sha os (format_path os folder) None False = Inr ?d
        \<and> find_duplicates sort_values sha os file folder = Inr ?res
        \<and> ?res = filter (\<lambda>r. snd r = ?fp) ?d
        \<and> (\<forall>r. r \<in> set ?res \<longleftrightarrow>
              r \<in> set t \<and> 2 \<le> count_list (map snd t) (snd r) \<and> snd r = ?fp)
        \<and> (count_list (map snd t) ?fp \<le> 1 \<longrightarrow> ?res = [])
        \<and> (\<forall>c. open_rb os ?target = Inr (c, False)
                \<and> count_list (map fst t) ?target \<le> 1
                \<and> (\<forall>f \<in> fst ` set t. \<forall>c'. open_rb os f = Inr (c', False) \<and> sha c' = sha c
                       \<longrightarrow> f = ?target)
              \<longrightarrow> ?res = [])"
    using d res members once alone by (intro conjI refl)
  then have "\<exists>d res.
          list_all_duplicates sort_values sha os (format_path os folder) None False = Inr d
        \<and> find_duplicates sort_values sha os file folder = Inr res
        \<and> res = filter (\<lambda>r. snd r = ?fp) d
        \<and> (\<forall>r. r \<in> set res \<longleftrightarrow>
              r \<in> set t \<and> 2 \<le> count_list (map snd t) (snd r) \<and> snd r = ?fp)
        \<and> (count_list (map snd t) ?fp \<le> 1 \<longrightarrow> res = [])
        \<and> (\<forall>c. open_rb os ?target = Inr (c, False)
                \<and> count_list (map fst t) ?target \<le> 1
                \<and> (\<forall>f \<in> fst ` set t. \<forall>c'. open_rb os f = Inr (c', False) \<and> sha c' = sha c
                       \<longrightarrow> f = ?target)
              \<longrightarrow> res = [])"
    by (intro exI)
  with one digest unread unopened show ?thesis by (intro conjI)
qed

lemma home_targets:
  "format_path home_os ''a.txt'' = ''/home/u/a.txt''"
  "format_path home_os ''c.txt'' = ''/home/u/c.txt''"
  by code_simp+

lemma home_fingerprints:
  "fingerprint toy_sha home_os ''/home/u/a.txt'' = ''58''"
  "fingerprint toy_sha home_os ''/home/u/c.txt'' = ''59''"
  by (simp_all add: home_opened [THEN fingerprint_opened] toy_hex)

lemma home_single:
  "hashtable toy_sha home_os (Single (format_path home_os ''a.txt'')) = Inr [''58'']"
  "hashtable toy_sha home_os (Single (format_path home_os ''c.txt'')) = Inr [''59'']"
proof -
  have "print_error home_os f = None" for f by (simp add: home_os_def)
  then have "hashtable toy_sha home_os (Single ''/home/u/a.txt'')
             = Inr [fingerprint toy_sha home_os ''/home/u/a.txt'']"
    and "hashtable toy_sha home_os (Single ''/home/u/c.txt'')
             = Inr [fingerprint toy_sha home_os ''/home/u/c.txt'']"
    by (simp_all add: hashtable_single_returns)
  then show "hashtable toy_sha home_os (Single (format_path home_os ''a.txt'')) = Inr [''58'']"
    and "hashtable toy_sha home_os (Single (format_path home_os ''c.txt'')) = Inr [''59'']"
    by (simp_all only: home_targets home_fingerprints)
qed

lemma home_table_formatted:
  "create_table toy_sha home_os (format_path home_os ''/home/u'') None False
   = Inr [(''/home/u/a.txt'', ''58''), (''/home/u/b.txt'', ''58''), (''/home/u/c.txt'', ''59''),
          (''/home/u/d.bin'', ''010203'')]"
  by (simp only: home_folder home_create_table)

lemma home_sorted_stable:
  "stable_sort_values [(''/home/u/a.txt'', ''58''), (''/home/u/b.txt'', ''58'')]
   = [(''/home/u/a.txt'', ''58''), (''/home/u/b.txt'', ''58'')]"
  by (simp add: stable_sort_values_def)

lemma home_duplicates:
  "list_all_duplicates stable_sort_values toy_sha home_os (format_path home_os ''/home/u'')
     None False
   = Inr [(''/home/u/a.txt'', ''58''), (''/home/u/b.txt'', ''58'')]"
  using list_all_duplicates_grouper [OF home_table_formatted, of stable_sort_values]
  by (simp add: grouper_def home_sorted_stable)

theorem find_duplicates_lookup_witness:
  "sorts_by_hash stable_sort_values
   \<and> hashtable toy_sha home_os (Single (format_path home_os ''a.txt'')) = Inr [''58'']
   \<and> hashtable toy_sha home_os (Single (format_path home_os ''c.txt'')) = Inr [''59'']
   \<and> create_table toy_sha home_os (format_path home_os ''/home/u'') None False
       = Inr [(''/home/u/a.txt'', ''58''), (''/home/u/b.txt'', ''58''),
              (''/home/u/c.txt'', ''59''), (''/home/u/d.bin'', ''010203'')]
   \<and> find_duplicates stable_sort_values toy_sha home_os ''a.txt'' ''/home/u''
       = Inr [(''/home/u/a.txt'', ''58''), (''/home/u/b.txt'', ''58'')]
   \<and> find_duplicates stable_sort_values toy_sha home_os ''c.txt'' ''/home/u'' = Inr []"
proof -
  have found: "find_duplicates stable_sort_values toy_sha home_os target ''/home/u''
        = Inr (filter (\<lambda>r. snd r = fingerprint toy_sha home_os (format_path home_os target))
                 [(''/home/u/a.txt'', ''58''), (''/home/u/b.txt'', ''58'')])"
    if single: "hashtable toy_sha home_os (Single (format_path home_os target)) = Inr file_hash"
    for target file_hash
  proof -
    obtain d res
      where d: "list_all_duplicates stable_sort_values toy_sha home_os
                  (format_path home_os ''/home/u'') None False = Inr d"
        and res: "find_duplicates stable_sort_values toy_sha home_os target ''/home/u'' = Inr res"
        and rows: "res = filter (\<lambda>r. snd r = fingerprint toy_sha home_os (format_path home_os target)) d"
      using find_duplicates_lookup [OF sorts_by_hash_stable single home_table_formatted]
      by blast
    from d have "d = [(''/home/u/a.txt'', ''58''), (''/home/u/b.txt'', ''58'')]"
      by (simp only: home_duplicates sum.inject)
    with res rows show ?thesis by (simp only:)
  qed
  have "find_duplicates stable_sort_values toy_sha home_os ''a.txt'' ''/home/u''
       = Inr [(''/home/u/a.txt'', ''58''), (''/home/u/b.txt'', ''58'')]"
    by (simp add: found [OF home_single(1)] home_targets home_fingerprints)
  moreover have "find_duplicates stable_sort_values toy_sha home_os ''c.txt'' ''/home/u'' = Inr []"
    by (simp add: found [OF home_single(2)] home_targets home_fingerprints)
  ultimately show ?thesis
    using sorts_by_hash_stable home_single home_table_formatted by (intro conjI)
qed

lemma locked_nodes:
  "resolve locked_os ''/srv/p'' = Inr (RegularFile [1] False)"
  "resolve locked_os ''/srv/q'' = Inr (RegularFile [1, 2] False)"
  "resolve locked_os ''/srv/r'' = Inr (RegularFile [5] True)"
  "resolve locked_os ''/srv/l'' = Inr BrokenLink"
  by (simp_all add: resolve_def locked_os_def isabs_def startswith_def)

lemma locked_grouper:
  "grouper [(''/srv/p'', no_hash), (''/srv/q'', no_hash), (''/srv/r'', ''05''),
            (''/srv/l'', no_hash)]
   = [(''/srv/p'', no_hash), (''/srv/q'', no_hash), (''/srv/l'', no_hash)]"
  using no_hash_neq_05 by (simp add: grouper_def)

lemma locked_sorted_stable:
  "stable_sort_values [(''/srv/p'', no_hash), (''/srv/q'', no_hash), (''/srv/l'', no_hash)]
   = [(''/srv/p'', no_hash), (''/srv/q'', no_hash), (''/srv/l'', no_hash)]"
  by (simp add: stable_sort_values_def)

lemma locked_duplicates:
  "list_all_duplicates stable_sort_values toy_sha locked_os ''/srv'' None False
   = Inr [(''/srv/p'', no_hash), (''/srv/q'', no_hash), (''/srv/l'', no_hash)]"
  using list_all_duplicates_grouper [OF locked_create_table, of stable_sort_values]
  by (simp only: locked_grouper locked_sorted_stable)

lemma locked_target: "format_path locked_os ''/srv/p'' = ''/srv/p''"
  by code_simp

text \<open>
  C8 as stated, with an empty result whenever the target is the only file with its content,
  fails: in \<open>/srv\<close> the target \<open>p\<close> is the only file with its content, it cannot be opened,
  and the result holds the three records with the failure sentinel.
\<close>

theorem find_duplicates_unreadable_target:
  "resolve locked_os ''/srv/p'' = Inr (RegularFile [1] False)
   \<and> resolve locked_os ''/srv/q'' = Inr (RegularFile [1, 2] False)
   \<and> resolve locked_os ''/srv/r'' = Inr (RegularFile [5] True)
   \<and> resolve locked_os ''/srv/l'' = Inr BrokenLink
   \<and> filelist locked_os ''/srv'' None = Inr [''/srv/p'', ''/srv/q'', ''/srv/r'', ''/srv/l'']
   \<and> find_duplicates stable_sort_values toy_sha locked_os ''/srv/p'' ''/srv''
       = Inr [(''/srv/p'', no_hash), (''/srv/q'', no_hash), (''/srv/l'', no_hash)]"
proof -
  have dups: "list_all_duplicates stable_sort_values toy_sha locked_os
          (format_path locked_os ''/srv'') None False
        = Inr [(''/srv/p'', no_hash), (''/srv/q'', no_hash), (''/srv/l'', no_hash)]"
    by (simp only: locked_folder locked_duplicates)
  have fp: "fingerprint toy_sha locked_os (format_path locked_os ''/srv/p'') = no_hash"
    by (simp only: locked_target locked_opened(1) [THEN fingerprint_unopened])
  have "hashtable toy_sha locked_os (Single ''/srv/p'')
        = Inr [fingerprint toy_sha locked_os ''/srv/p'']"
    by (rule hashtable_single_returns) (simp_all add: locked_os_def)
  then have "hashtable toy_sha locked_os (Single (format_path locked_os ''/srv/p''))
        = Inr [fingerprint toy_sha locked_os (format_path locked_os ''/srv/p'')]"
    by (simp only: locked_target)
  from find_duplicates_filter [OF this dups]
  have "find_duplicates stable_sort_values toy_sha locked_os ''/srv/p'' ''/srv''
       = Inr [(''/srv/p'', no_hash), (''/srv/q'', no_hash), (''/srv/l'', no_hash)]"
    by (simp add: fp)
  with locked_nodes locked_files show ?thesis by (intro conjI)
qed

end
